theory Spec2Isabelle
  imports Main
begin

section \<open>Data model\<close>

text \<open>
  A heap string, as \<^verbatim>\<open>strdup\<close> returns it, is a pair of its allocation number and its
  content: two pointers are the same pointer when the numbers agree. An argument array
  \<^verbatim>\<open>char *args[]\<close> is a list of slots, \<open>None\<close> being the null pointer. Indices and
  counts (\<^verbatim>\<open>size_t\<close>) are natural numbers; the vectors are far shorter than any
  machine bound, so the narrowing to \<^verbatim>\<open>int\<close> in \<^verbatim>\<open>find_pipe_idx\<close> keeps the value.
\<close>

type_synonym cptr = "nat \<times> string"
type_synonym argv = "cptr option list"

datatype fault = Null_deref

datatype fd = Fd_read | Fd_write

datatype std = Stdin | Stdout

text \<open>What a forked child does, in order, up to and after its \<^verbatim>\<open>execvp\<close>.\<close>

datatype child_op =
    Close fd
  | Dup2 fd std
  | Execvp "string option" "string list"
  | Child_perror string
  | Child_exit_failure

text \<open>
  What the shell process itself does, in order: the syntax message of a scan with the
  token it prints (\<open>None\<close> when it is handed the null sentinel), a line on standard
  error, a \<^verbatim>\<open>perror\<close> with its prefix, a \<^verbatim>\<open>freopen\<close> of a path on a stream with its
  success, a \<^verbatim>\<open>chdir\<close> with its success, \<^verbatim>\<open>pipe\<close> with its success, a \<^verbatim>\<open>fork\<close> with the pid
  the parent gets and what the child does, the parent closing an end of the pipe, a
  \<^verbatim>\<open>waitpid\<close> on a pid, \<^verbatim>\<open>free\<close> of a slot of the argument array (the allocation number
  of the string, or \<open>None\<close> for a null slot), and \<^verbatim>\<open>free\<close> of the array itself.
\<close>

datatype event =
    Syntax_error "string option"
  | Stderr string
  | Perror string
  | Freopen string std bool
  | Chdir "string option" bool
  | Pipe bool
  | Fork int "child_op list"
  | Parent_close fd
  | Waitpid int
  | Free "nat option"
  | Free_array

text \<open>
  A standard stream of the shell process: as inherited at start-up, reopened on a path
  by \<^verbatim>\<open>freopen\<close>, or closed (a failed \<^verbatim>\<open>freopen\<close> has closed the stream it was given).
\<close>

datatype stream = Inherited | On_path string | Closed

record streams =
  st_stdin :: stream
  st_stdout :: stream

text \<open>The host's answers to the system calls of one line.\<close>

record env =
  readable :: "string \<Rightarrow> bool"
  writable :: "string \<Rightarrow> bool"
  chdir_ok :: "string \<Rightarrow> bool"
  pipe_ok :: bool
  fork_ok :: "nat \<Rightarrow> bool"
  execvp_ok :: "string option \<Rightarrow> bool"
  alloc_ok :: "nat \<Rightarrow> bool"

text \<open>
  How a call ends: it returns; the process exits with \<^verbatim>\<open>EXIT_FAILURE\<close>; the process is
  killed for reading through a null pointer; or it is killed by the allocator at the
  \<^verbatim>\<open>free\<close> of a string that has been freed before.
\<close>

datatype status = Returned | Exited_failure | Segfault | Aborted

record outcome =
  oc_trace :: "event list"
  oc_streams :: streams
  oc_args :: argv
  oc_status :: status

definition finish :: "event list \<Rightarrow> streams \<Rightarrow> argv \<Rightarrow> status \<Rightarrow> outcome" where
  "finish tr sh args st = \<lparr>oc_trace = tr, oc_streams = sh, oc_args = args, oc_status = st\<rparr>"

section \<open>Redirection extraction (\<^verbatim>\<open>is_valid_redirection\<close>, \<^verbatim>\<open>redirect_input\<close>, \<^verbatim>\<open>redirect_output\<close>)\<close>

text \<open>\<^verbatim>\<open>s[0]\<close> of a C string: the terminating NUL when the string is empty.\<close>

definition first_char :: "string \<Rightarrow> char" where
  "first_char s = (case s of [] \<Rightarrow> CHR 0x00 | c # _ \<Rightarrow> c)"

definition is_valid_redirection :: "nat \<Rightarrow> nat \<Rightarrow> argv \<Rightarrow> fault + bool" where
  "is_valid_redirection i num_args args =
     (if i + 1 < num_args then
        (case args ! (i + 1) of
           None \<Rightarrow> Inl Null_deref
         | Some p \<Rightarrow> Inr (first_char (snd p) \<noteq> CHR ''<'' \<and> first_char (snd p) \<noteq> CHR ''>''))
      else Inr False)"

text \<open>
  The compaction loop \<^verbatim>\<open>for (j = i; j < *num_args - 2; j++) args[j] = args[j + 2]\<close>.
  It is reached only after \<^verbatim>\<open>is_valid_redirection\<close> has returned true, so
  \<open>2 \<le> num_args\<close> and the unsigned subtraction does not wrap.
\<close>

function shift_args :: "nat \<Rightarrow> nat \<Rightarrow> argv \<Rightarrow> argv" where
  "shift_args j num_args args =
     (if j < num_args - 2 then shift_args (Suc j) num_args (args[j := args ! (j + 2)])
      else args)"
  by pat_completeness auto
termination
  by (relation "measure (\<lambda>(j, n, _). n - 2 - j)") auto

declare shift_args.simps [simp del]

text \<open>
  What a scan hands back to \<^verbatim>\<open>execute_cmd\<close>: \<open>Redirected n args path\<close> is the return
  value true with the count, the array and the out-parameter as the scan left them;
  \<open>Not_redirected errs\<close> is the return value false, the count and the array untouched,
  after writing \<open>errs\<close> to standard error (nothing when the symbol was not found).
\<close>

datatype redirect_result =
    Redirected nat argv string
  | Not_redirected "event list"

text \<open>
  \<^verbatim>\<open>redirect_input\<close> and \<^verbatim>\<open>redirect_output\<close> are the same text up to the symbol compared
  and the name of the out-parameter, so the scan is written once, for a symbol \<open>symb\<close>,
  as the loop over \<open>i\<close>. The failure message prints \<^verbatim>\<open>args[i + 1]\<close>, which is the null
  sentinel when the symbol is the last token.
\<close>

function redirect_scan :: "string \<Rightarrow> nat \<Rightarrow> nat \<Rightarrow> argv \<Rightarrow> fault + redirect_result" where
  "redirect_scan symb i num_args args =
     (if i < num_args then
        (case args ! i of
           None \<Rightarrow> Inl Null_deref
         | Some p \<Rightarrow>
             if snd p = symb then
               (case is_valid_redirection i num_args args of
                  Inl f \<Rightarrow> Inl f
                | Inr valid \<Rightarrow>
                    if \<not> valid then
                      Inr (Not_redirected [Syntax_error (map_option snd (args ! (i + 1)))])
                    else
                      (case args ! (i + 1) of
                         None \<Rightarrow> Inl Null_deref
                       | Some q \<Rightarrow>
                           Inr (Redirected (num_args - 2)
                                  ((shift_args i num_args args)[num_args - 2 := None])
                                  (snd q))))
             else redirect_scan symb (Suc i) num_args args)
      else Inr (Not_redirected []))"
  by pat_completeness auto
termination
  by (relation "measure (\<lambda>(_, i, n, _). n - i)") auto

declare redirect_scan.simps [simp del]

definition redirect_input :: "nat \<Rightarrow> argv \<Rightarrow> fault + redirect_result" where
  "redirect_input num_args args = redirect_scan ''<'' 0 num_args args"

definition redirect_output :: "nat \<Rightarrow> argv \<Rightarrow> fault + redirect_result" where
  "redirect_output num_args args = redirect_scan ''>'' 0 num_args args"

section \<open>The piped path (\<^verbatim>\<open>find_pipe_idx\<close>, \<^verbatim>\<open>execute_pipe\<close>)\<close>

function find_pipe_loop :: "nat \<Rightarrow> nat \<Rightarrow> argv \<Rightarrow> fault + int" where
  "find_pipe_loop i num_args args =
     (if i < num_args then
        (case args ! i of
           None \<Rightarrow> Inl Null_deref
         | Some p \<Rightarrow> if snd p = ''|'' then Inr (int i) else find_pipe_loop (Suc i) num_args args)
      else Inr (- 1))"
  by pat_completeness auto
termination
  by (relation "measure (\<lambda>(i, n, _). n - i)") auto

declare find_pipe_loop.simps [simp del]

definition find_pipe_idx :: "nat \<Rightarrow> argv \<Rightarrow> fault + int" where
  "find_pipe_idx num_args args = find_pipe_loop 0 num_args args"

text \<open>The copy loops \<^verbatim>\<open>for (i = 0; i < m; i++) dst[i] = args[i + off]\<close> of \<^verbatim>\<open>execute_pipe\<close>.\<close>

function copy_args :: "nat \<Rightarrow> nat \<Rightarrow> nat \<Rightarrow> argv \<Rightarrow> argv \<Rightarrow> argv" where
  "copy_args i m off args dst =
     (if i < m then copy_args (Suc i) m off args (dst[i := args ! (i + off)]) else dst)"
  by pat_completeness auto
termination
  by (relation "measure (\<lambda>(i, m, _). m - i)") auto

declare copy_args.simps [simp del]

text \<open>What \<^verbatim>\<open>execvp\<close> reads of an array: the strings before the first null slot.\<close>

definition argv_strings :: "argv \<Rightarrow> string list" where
  "argv_strings args = map (\<lambda>s. case s of None \<Rightarrow> [] | Some p \<Rightarrow> snd p) (takeWhile (\<lambda>s. s \<noteq> None) args)"

text \<open>A child's \<^verbatim>\<open>execvp(a[0], a)\<close>, with the diagnostic and exit that follow when it returns.\<close>

definition exec_child :: "env \<Rightarrow> string \<Rightarrow> argv \<Rightarrow> child_op list" where
  "exec_child env msg a =
     Execvp (map_option snd (a ! 0)) (argv_strings a) #
     (if execvp_ok env (map_option snd (a ! 0)) then [] else [Child_perror msg, Child_exit_failure])"

text \<open>
  Lines 265 to 276: the two variable-length arrays, shown with null in every fresh slot
  (each slot that is read has been stored before).
\<close>

definition pipe_lhs :: "argv \<Rightarrow> int \<Rightarrow> argv" where
  "pipe_lhs args pipe_idx =
     (copy_args 0 (nat pipe_idx) 0 args (replicate (nat pipe_idx + 1) None))
       [nat pipe_idx := None]"

definition pipe_rhs :: "argv \<Rightarrow> int \<Rightarrow> nat \<Rightarrow> argv" where
  "pipe_rhs args pipe_idx num_args =
     (copy_args 0 (num_args - nat pipe_idx - 1) (nat pipe_idx + 1) args
        (replicate (num_args - nat pipe_idx) None))
       [num_args - nat pipe_idx - 1 := None]"

text \<open>
  \<^verbatim>\<open>fork\<close> gives the parent the child's pid (1 for the first child of the line, 2 for
  the second) or \<open>- 1\<close>; \<^verbatim>\<open>execute_pipe\<close> does not test for \<open>- 1\<close>.
\<close>

definition execute_pipe :: "env \<Rightarrow> streams \<Rightarrow> argv \<Rightarrow> int \<Rightarrow> nat \<Rightarrow> outcome" where
  "execute_pipe env sh args pipe_idx num_args =
     (let lhs = pipe_lhs args pipe_idx;
          rhs = pipe_rhs args pipe_idx num_args
      in if \<not> pipe_ok env then finish [Pipe False, Perror ''pipe''] sh args Exited_failure
         else
           let pid1 = (if fork_ok env 0 then 1 else - 1);
               child1 = (if fork_ok env 0
                         then [Close Fd_read, Dup2 Fd_write Stdout, Close Fd_write]
                              @ exec_child env ''execvp lhs'' lhs
                         else []);
               pid2 = (if fork_ok env 1 then 2 else - 1);
               child2 = (if fork_ok env 1
                         then [Close Fd_write, Dup2 Fd_read Stdin, Close Fd_read]
                              @ exec_child env ''execvp rhs'' rhs
                         else [])
           in finish [Pipe True, Fork pid1 child1, Fork pid2 child2,
                      Parent_close Fd_read, Parent_close Fd_write,
                      Waitpid pid1, Waitpid pid2] sh args Returned)"

section \<open>The single-command path (\<^verbatim>\<open>execute_cmd\<close>)\<close>

text \<open>
  \<^verbatim>\<open>freopen(path, mode, stream)\<close>; the mode is \<^verbatim>\<open>"r"\<close> at every call on \<^verbatim>\<open>stdin\<close> and
  \<^verbatim>\<open>"w"\<close> at every call on \<^verbatim>\<open>stdout\<close>.
\<close>

definition freopen :: "env \<Rightarrow> string \<Rightarrow> std \<Rightarrow> streams \<Rightarrow> bool \<times> streams" where
  "freopen env path s sh =
     (case s of
        Stdin \<Rightarrow> if readable env path then (True, sh\<lparr>st_stdin := On_path path\<rparr>)
                 else (False, sh\<lparr>st_stdin := Closed\<rparr>)
      | Stdout \<Rightarrow> if writable env path then (True, sh\<lparr>st_stdout := On_path path\<rparr>)
                  else (False, sh\<lparr>st_stdout := Closed\<rparr>))"

text \<open>Lines 163 to 166: both streams are reopened on the terminal device.\<close>

definition restore_streams :: "env \<Rightarrow> streams \<Rightarrow> event list \<times> streams" where
  "restore_streams env sh =
     (let (ok1, sh1) = freopen env ''/dev/tty'' Stdin sh;
          (ok2, sh2) = freopen env ''/dev/tty'' Stdout sh1
      in (Freopen ''/dev/tty'' Stdin ok1 # (if ok1 then [] else [Perror ''Restoring stdin failed''])
          @ Freopen ''/dev/tty'' Stdout ok2 # (if ok2 then [] else [Perror ''Restoring stdout failed'']),
          sh2))"

text \<open>Lines 136 to 172: the built-in \<^verbatim>\<open>cd\<close>, or one child; \<open>tr\<close> is what happened before.\<close>

definition execute_cmd_run :: "env \<Rightarrow> streams \<Rightarrow> event list \<Rightarrow> nat \<Rightarrow> argv \<Rightarrow> outcome" where
  "execute_cmd_run env sh tr num_args args =
     (case args ! 0 of
        None \<Rightarrow> finish tr sh args Segfault
      | Some p \<Rightarrow>
          if snd p = ''cd'' then
            (if num_args < 2 then finish (tr @ [Stderr ''cd: missing operand'']) sh args Returned
             else
               let dir = map_option snd (args ! 1);
                   ok = (case dir of None \<Rightarrow> False | Some d \<Rightarrow> chdir_ok env d)
               in finish (tr @ Chdir dir ok # (if ok then [] else [Perror ''cd''])) sh args Returned)
          else if fork_ok env 0 then
            (let (evs, sh') = restore_streams env sh
             in finish (tr @ [Fork 1 (exec_child env ''execvp'' args), Waitpid 1] @ evs)
                  sh' args Returned)
          else finish (tr @ [Fork (- 1) [], Perror ''fork'']) sh args Exited_failure)"

text \<open>
  Lines 125 to 134, then the rest. The duplicate of the path that a successful scan
  makes is freed by \<^verbatim>\<open>execute_cmd\<close> on each of its paths, right after the \<^verbatim>\<open>freopen\<close>; it
  is not an argument string and is left out of the trace.
\<close>

definition execute_cmd_output :: "env \<Rightarrow> streams \<Rightarrow> event list \<Rightarrow> nat \<Rightarrow> argv \<Rightarrow> outcome" where
  "execute_cmd_output env sh tr num_args args =
     (case redirect_output num_args args of
        Inl f \<Rightarrow> finish tr sh args Segfault
      | Inr (Not_redirected errs) \<Rightarrow> execute_cmd_run env sh (tr @ errs) num_args args
      | Inr (Redirected n' args' path) \<Rightarrow>
          (case freopen env path Stdout sh of
             (False, sh') \<Rightarrow>
               finish (tr @ [Freopen path Stdout False, Perror ''Failed to redirect output''])
                 sh' args' Returned
           | (True, sh') \<Rightarrow>
               execute_cmd_run env sh' (tr @ [Freopen path Stdout True]) n' args'))"

definition execute_cmd :: "env \<Rightarrow> streams \<Rightarrow> nat \<Rightarrow> argv \<Rightarrow> outcome" where
  "execute_cmd env sh num_args args =
     (if num_args = 0 then finish [] sh args Returned
      else
        (case find_pipe_idx num_args args of
           Inl f \<Rightarrow> finish [] sh args Segfault
         | Inr pipe_idx \<Rightarrow>
             if pipe_idx \<noteq> - 1 then execute_pipe env sh args pipe_idx num_args
             else
               (case redirect_input num_args args of
                  Inl f \<Rightarrow> finish [] sh args Segfault
                | Inr (Not_redirected errs) \<Rightarrow> execute_cmd_output env sh errs num_args args
                | Inr (Redirected n' args' path) \<Rightarrow>
                    (case freopen env path Stdin sh of
                       (False, sh') \<Rightarrow>
                         finish [Freopen path Stdin False, Perror ''Failed to redirect input'']
                           sh' args' Returned
                     | (True, sh') \<Rightarrow>
                         execute_cmd_output env sh' [Freopen path Stdin True] n' args'))))"


section \<open>The tokenizer (\<^verbatim>\<open>parse_cmd\<close>)\<close>

definition is_delim :: "char \<Rightarrow> bool" where
  "is_delim c = (c = CHR '' '' \<or> c = CHR 0x0A)"

text \<open>
  \<^verbatim>\<open>strtok\<close> with the delimiters \<^verbatim>\<open>" \n"\<close>, on what is left of the line: it skips
  delimiters, returns nothing at the end of the string, and otherwise returns the token
  up to the next delimiter together with what follows that delimiter.
\<close>

definition strtok :: "string \<Rightarrow> (string \<times> string) option" where
  "strtok s =
     (case dropWhile is_delim s of
        [] \<Rightarrow> None
      | c # cs \<Rightarrow>
          Some (takeWhile (\<lambda>x. \<not> is_delim x) (c # cs),
                drop 1 (dropWhile (\<lambda>x. \<not> is_delim x) (c # cs))))"

text \<open>
  The \<^verbatim>\<open>while (token != NULL)\<close> loop. \<open>args\<close> holds the slots stored so far, slot
  \<open>num_args\<close> being the next one; \<open>capacity\<close> is the number of slots allocated. The
  result is \<open>None\<close> when \<^verbatim>\<open>realloc\<close> fails (the process then exits).
\<close>

function tokenize_loop ::
  "env \<Rightarrow> string \<Rightarrow> cptr list \<Rightarrow> nat \<Rightarrow> nat \<Rightarrow> (cptr list \<times> nat \<times> nat) option" where
  "tokenize_loop env rest args num_args capacity =
     (case strtok rest of
        None \<Rightarrow> Some (args, num_args, capacity)
      | Some (token, rest') \<Rightarrow>
          if num_args \<ge> capacity then
            (if alloc_ok env (capacity * 2)
             then tokenize_loop env rest' (args @ [(num_args, token)]) (Suc num_args) (capacity * 2)
             else None)
          else tokenize_loop env rest' (args @ [(num_args, token)]) (Suc num_args) capacity)"
  by pat_completeness auto
termination
proof (relation "measure (\<lambda>(_, rest, _). length rest)")
  show "wf (measure (\<lambda>(_, rest, _). length rest))" by simp
next
  fix env :: env and rest :: string and args :: "cptr list" and num_args capacity :: nat
    and x2 :: "string \<times> string" and token rest' :: string
  assume tok: "strtok rest = Some x2" "(token, rest') = x2"
  have short: "length rest' < length rest"
  proof (cases "dropWhile is_delim rest")
    case Nil
    with tok show ?thesis by (simp add: strtok_def)
  next
    case (Cons c cs)
    have "\<not> is_delim c"
      using Cons hd_dropWhile [of is_delim rest] by force
    with tok Cons have "rest' = drop 1 (dropWhile (\<lambda>x. \<not> is_delim x) cs)"
      by (auto simp: strtok_def)
    then have "length rest' \<le> length cs"
      using length_dropWhile_le [of "\<lambda>x. \<not> is_delim x" cs] by simp
    moreover have "length (c # cs) \<le> length rest"
      using length_dropWhile_le [of is_delim rest] Cons by simp
    ultimately show ?thesis by simp
  qed
  {
    assume "capacity \<le> num_args" "alloc_ok env (capacity * 2)"
    show "((env, rest', args @ [(num_args, token)], Suc num_args, capacity * 2),
           env, rest, args, num_args, capacity) \<in> measure (\<lambda>(_, rest, _). length rest)"
      using short by simp
  }
  {
    assume "\<not> capacity \<le> num_args"
    show "((env, rest', args @ [(num_args, token)], Suc num_args, capacity),
           env, rest, args, num_args, capacity) \<in> measure (\<lambda>(_, rest, _). length rest)"
      using short by simp
  }
qed

declare tokenize_loop.simps [simp del]

record parse_outcome =
  po_trace :: "event list"
  po_streams :: streams
  po_status :: status
  po_num_args :: nat
  po_capacity :: nat

text \<open>
  The loop \<^verbatim>\<open>for (i = 0; i < num_args; i++) free(args[i])\<close> at the end of \<^verbatim>\<open>parse_cmd\<close>.
  \<open>freed\<close> holds the allocations freed so far and \<open>tr\<close> the calls made so far. Freeing
  a null slot does nothing; freeing an allocation a second time is the last thing the
  process does (the result is then \<open>False\<close>).
\<close>

function free_args :: "nat \<Rightarrow> nat \<Rightarrow> argv \<Rightarrow> nat list \<Rightarrow> event list \<Rightarrow> event list \<times> bool" where
  "free_args i num_args args freed tr =
     (if i < num_args then
        (case args ! i of
           None \<Rightarrow> free_args (Suc i) num_args args freed (tr @ [Free None])
         | Some p \<Rightarrow>
             if fst p \<in> set freed then (tr @ [Free (Some (fst p))], False)
             else free_args (Suc i) num_args args (fst p # freed) (tr @ [Free (Some (fst p))]))
      else (tr, True))"
  by pat_completeness auto
termination
  by (relation "measure (\<lambda>(i, n, _). n - i)") auto

declare free_args.simps [simp del]

text \<open>
  \<^verbatim>\<open>parse_cmd\<close>: ten slots are allocated, the loop stores one duplicate per token, the
  store \<^verbatim>\<open>args[num_args] = NULL\<close> follows (whatever the capacity is by then: the outcome
  keeps both numbers), and \<^verbatim>\<open>execute_cmd\<close> runs on the count and the array. When it
  returns, the first \<open>num_args\<close> slots of the array, as \<^verbatim>\<open>execute_cmd\<close> left it, are
  freed, with \<open>num_args\<close> the count before \<^verbatim>\<open>execute_cmd\<close>, and then the array itself.
\<close>

definition parse_cmd :: "env \<Rightarrow> streams \<Rightarrow> string \<Rightarrow> parse_outcome" where
  "parse_cmd env sh input =
     (if \<not> alloc_ok env 10 then
        \<lparr>po_trace = [Perror ''malloc failed''], po_streams = sh, po_status = Exited_failure,
         po_num_args = 0, po_capacity = 0\<rparr>
      else
        (case tokenize_loop env input [] 0 10 of
           None \<Rightarrow>
             \<lparr>po_trace = [Perror ''realloc failed''], po_streams = sh,
              po_status = Exited_failure, po_num_args = 0, po_capacity = 0\<rparr>
         | Some (args, num_args, capacity) \<Rightarrow>
             let r = execute_cmd env sh num_args (map Some args @ [None])
             in if oc_status r \<noteq> Returned then
                  \<lparr>po_trace = oc_trace r, po_streams = oc_streams r, po_status = oc_status r,
                   po_num_args = num_args, po_capacity = capacity\<rparr>
                else
                  (case free_args 0 num_args (oc_args r) [] [] of
                     (frees, True) \<Rightarrow>
                       \<lparr>po_trace = oc_trace r @ frees @ [Free_array],
                        po_streams = oc_streams r, po_status = Returned,
                        po_num_args = num_args, po_capacity = capacity\<rparr>
                   | (frees, False) \<Rightarrow>
                       \<lparr>po_trace = oc_trace r @ frees,
                        po_streams = oc_streams r, po_status = Aborted,
                        po_num_args = num_args, po_capacity = capacity\<rparr>)))"

section \<open>A host, a start state and lines to run the shell on\<close>

text \<open>A host on which every system call of the line succeeds.\<close>

definition host_ok :: env where
  "host_ok = \<lparr>readable = (\<lambda>_. True), writable = (\<lambda>_. True), chdir_ok = (\<lambda>_. True),
     pipe_ok = True, fork_ok = (\<lambda>_. True), execvp_ok = (\<lambda>_. True), alloc_ok = (\<lambda>_. True)\<rparr>"

definition at_start :: streams where
  "at_start = \<lparr>st_stdin = Inherited, st_stdout = Inherited\<rparr>"

text \<open>The line that the read loop hands over: what was typed, and the newline.\<close>

definition typed :: "string \<Rightarrow> string" where
  "typed s = s @ [CHR 0x0A]"

text \<open>Where the first token equal to \<open>t\<close> stands in a token list (the length when there is none).\<close>

definition first_index :: "string \<Rightarrow> string list \<Rightarrow> nat" where
  "first_index t ts = length (takeWhile (\<lambda>x. x \<noteq> t) ts)"

text \<open>The test that \<^verbatim>\<open>is_valid_redirection\<close> makes on the content of the operand.\<close>

definition operand_ok :: "string \<Rightarrow> bool" where
  "operand_ok t = (first_char t \<noteq> CHR ''<'' \<and> first_char t \<noteq> CHR ''>'')"

text \<open>
  Splitting on runs of spaces and newlines, following the words of the specification: the
  line is cut at every delimiter, and the empty pieces (between two delimiters of a run,
  before a leading and after a trailing delimiter) are dropped.
\<close>

fun fields :: "string \<Rightarrow> string list" where
  "fields [] = [[]]"
| "fields (c # cs) =
     (if is_delim c then [] # fields cs
      else (case fields cs of [] \<Rightarrow> [[c]] | w # ws \<Rightarrow> (c # w) # ws))"

definition whitespace_split :: "string \<Rightarrow> string list" where
  "whitespace_split s = filter (\<lambda>w. w \<noteq> []) (fields s)"

section \<open>Arrays that hold a token vector\<close>

text \<open>
  The lemmas below are about an array \<open>args\<close> whose first \<open>n\<close> slots hold the pointers
  \<open>ps\<close>: \<open>take n args = map Some ps\<close>. The array that \<^verbatim>\<open>parse_cmd\<close> builds is one, and so
  is the array a scan leaves behind, with the slots past the new sentinel still holding
  what they held.
\<close>

lemma length_shift_args: "length (shift_args j n a) = length a"
  by (induction j n a rule: shift_args.induct) (subst shift_args.simps, simp)

lemma nth_shift_args:
  "n \<le> length a \<Longrightarrow> k < length a \<Longrightarrow>
   shift_args j n a ! k = (if j \<le> k \<and> k < n - 2 then a ! (k + 2) else a ! k)"
proof (induction j n a rule: shift_args.induct)
  case (1 j n a)
  show ?case
  proof (cases "j < n - 2")
    case True
    have "shift_args j n a ! k = shift_args (Suc j) n (a[j := a ! (j + 2)]) ! k"
      using True by (subst shift_args.simps) simp
    also have "\<dots> = (if Suc j \<le> k \<and> k < n - 2 then (a[j := a ! (j + 2)]) ! (k + 2)
                      else (a[j := a ! (j + 2)]) ! k)"
      using "1.IH" [OF True] "1.prems" by simp
    also have "\<dots> = (if j \<le> k \<and> k < n - 2 then a ! (k + 2) else a ! k)"
      using "1.prems" True by (auto simp: nth_list_update)
    finally show ?thesis .
  next
    case False
    then show ?thesis by (subst shift_args.simps) auto
  qed
qed

lemma shift_args_compact:
  assumes "i + 2 \<le> n" "n \<le> length a"
  shows "(shift_args i n a)[n - 2 := None] =
         take i a @ take (n - 2 - i) (drop (i + 2) a) @ None # drop (n - 1) a"
proof (rule nth_equalityI)
  show "length ((shift_args i n a)[n - 2 := None]) =
        length (take i a @ take (n - 2 - i) (drop (i + 2) a) @ None # drop (n - 1) a)"
    using assms by (simp add: length_shift_args)
next
  fix k assume "k < length ((shift_args i n a)[n - 2 := None])"
  then have k: "k < length a" by (simp add: length_shift_args)
  let ?r = "take i a @ take (n - 2 - i) (drop (i + 2) a) @ None # drop (n - 1) a"
  consider "k < i" | "i \<le> k" "k < n - 2" | "k = n - 2" | "n - 1 \<le> k"
    by linarith
  then show "(shift_args i n a)[n - 2 := None] ! k = ?r ! k"
  proof cases
    case 1
    then show ?thesis using assms k
      by (simp add: nth_list_update length_shift_args nth_shift_args nth_append)
  next
    case 2
    then have "k - i < n - 2 - i" by linarith
    then have "?r ! k = a ! (k + 2)"
      using 2 assms k by (simp add: nth_append)
    then show ?thesis using 2 assms k
      by (simp add: nth_list_update length_shift_args nth_shift_args)
  next
    case 3
    have len: "length (take i a @ take (n - 2 - i) (drop (i + 2) a)) = n - 2"
      using assms by simp
    have "?r ! (n - 2) = None"
      using nth_append_length [of "take i a @ take (n - 2 - i) (drop (i + 2) a)" None "drop (n - 1) a"]
      unfolding len by simp
    then show ?thesis using 3 k
      by (simp add: length_shift_args)
  next
    case 4
    have len: "length (take i a @ take (n - 2 - i) (drop (i + 2) a)) = n - 2"
      using assms by simp
    define m where "m = k - (n - 1)"
    have m: "k = (n - 2) + Suc m"
      using 4 assms unfolding m_def by linarith
    have "?r ! k = (None # drop (n - 1) a) ! Suc m"
      using nth_append_length_plus
        [of "take i a @ take (n - 2 - i) (drop (i + 2) a)" "None # drop (n - 1) a" "Suc m"]
      unfolding len m by simp
    also have "\<dots> = a ! (n - 1 + m)"
      using m k assms by simp
    also have "n - 1 + m = k"
      using m assms by linarith
    finally have r: "?r ! k = a ! k" .
    have "\<not> k < n - 2" "k \<noteq> n - 2"
      using 4 assms by linarith+
    then show ?thesis using r assms k
      by (simp add: nth_list_update length_shift_args nth_shift_args)
  qed
qed


lemma holds_nth:
  "take n args = map Some ps \<Longrightarrow> n \<le> length args \<Longrightarrow> i < n \<Longrightarrow> args ! i = Some (ps ! i)"
proof -
  assume a: "take n args = map Some ps" "n \<le> length args" "i < n"
  then have "length ps = n" by (metis length_map length_take min.absorb2)
  then have "map Some ps ! i = Some (ps ! i)" using a(3) by simp
  then show ?thesis using a by (metis nth_take)
qed

lemma holds_length:
  "take n args = map Some ps \<Longrightarrow> n \<le> length args \<Longrightarrow> length ps = n"
  by (metis length_map length_take min.absorb2)

lemma find_pipe_loop_hit:
  "take n args = map Some ps \<Longrightarrow> n \<le> length args \<Longrightarrow> i < n \<Longrightarrow> snd (ps ! i) = ''|'' \<Longrightarrow>
   find_pipe_loop i n args = Inr (int i)"
  by (subst find_pipe_loop.simps) (simp add: holds_nth)

lemma find_pipe_loop_miss:
  "take n args = map Some ps \<Longrightarrow> n \<le> length args \<Longrightarrow> i < n \<Longrightarrow> snd (ps ! i) \<noteq> ''|'' \<Longrightarrow>
   find_pipe_loop i n args = find_pipe_loop (Suc i) n args"
  by (subst find_pipe_loop.simps) (simp add: holds_nth)

lemma find_pipe_loop_end: "n \<le> i \<Longrightarrow> find_pipe_loop i n args = Inr (- 1)"
  by (subst find_pipe_loop.simps) simp

lemma find_pipe_loop_skip:
  assumes "take n args = map Some ps" "n \<le> length args"
  shows "i + m \<le> n \<Longrightarrow> (\<forall>j<m. snd (ps ! (i + j)) \<noteq> ''|'') \<Longrightarrow>
         find_pipe_loop i n args = find_pipe_loop (i + m) n args"
proof (induction m arbitrary: i)
  case 0
  then show ?case by simp
next
  case (Suc m)
  have "snd (ps ! i) \<noteq> ''|''" using Suc.prems(2) [rule_format, of 0] by simp
  then have "find_pipe_loop i n args = find_pipe_loop (Suc i) n args"
    using assms Suc.prems(1) by (intro find_pipe_loop_miss) auto
  also have "\<dots> = find_pipe_loop (Suc i + m) n args"
  proof (rule Suc.IH)
    show "Suc i + m \<le> n" using Suc.prems(1) by simp
    show "\<forall>j<m. snd (ps ! (Suc i + j)) \<noteq> ''|''"
      using Suc.prems(2) [rule_format, of "Suc j" for j] by simp
  qed
  finally show ?case by simp
qed

lemma first_index_le: "first_index t ts \<le> length ts"
  unfolding first_index_def by (rule length_takeWhile_le)

lemma first_index_before: "j < first_index t ts \<Longrightarrow> ts ! j \<noteq> t"
  unfolding first_index_def
  by (induction ts arbitrary: j) (auto simp: nth_Cons' split: if_splits)

lemma first_index_at: "first_index t ts < length ts \<Longrightarrow> ts ! first_index t ts = t"
  unfolding first_index_def by (induction ts) auto

lemma first_index_mem: "t \<in> set ts \<longleftrightarrow> first_index t ts < length ts"
  unfolding first_index_def by (induction ts) auto

lemma find_pipe_idx_holds:
  assumes "take n args = map Some ps" "n \<le> length args"
  shows "find_pipe_idx n args =
         Inr (if ''|'' \<in> set (map snd ps) then int (first_index ''|'' (map snd ps)) else - 1)"
proof -
  let ?ts = "map snd ps" and ?k = "first_index ''|'' (map snd ps)"
  have len: "length ps = n" using assms by (rule holds_length)
  have k: "?k \<le> n" using first_index_le [of "''|''" ?ts] len by simp
  have "\<forall>j<?k. snd (ps ! (0 + j)) \<noteq> ''|''"
    using first_index_before [of _ "''|''" ?ts] k len by simp
  then have skip: "find_pipe_loop 0 n args = find_pipe_loop (0 + ?k) n args"
    using assms k by (intro find_pipe_loop_skip [where ps = ps]) auto
  show ?thesis
  proof (cases "''|'' \<in> set ?ts")
    case True
    then have lt: "?k < n" using first_index_mem [of "''|''" ?ts] len by simp
    then have "snd (ps ! ?k) = ''|''"
      using first_index_at [of "''|''" ?ts] len by simp
    then show ?thesis
      using True skip find_pipe_loop_hit [OF assms lt] by (simp add: find_pipe_idx_def)
  next
    case False
    then have "?k = n" using first_index_mem [of "''|''" ?ts] len k by simp
    then show ?thesis
      using False skip find_pipe_loop_end [of n n args] by (simp add: find_pipe_idx_def)
  qed
qed


lemma redirect_scan_end: "n \<le> i \<Longrightarrow> redirect_scan symb i n args = Inr (Not_redirected [])"
  by (subst redirect_scan.simps) simp

lemma redirect_scan_miss:
  "take n args = map Some ps \<Longrightarrow> n \<le> length args \<Longrightarrow> i < n \<Longrightarrow> snd (ps ! i) \<noteq> symb \<Longrightarrow>
   redirect_scan symb i n args = redirect_scan symb (Suc i) n args"
  by (subst redirect_scan.simps) (simp add: holds_nth)

lemma redirect_scan_skip:
  assumes "take n args = map Some ps" "n \<le> length args"
  shows "i + m \<le> n \<Longrightarrow> (\<forall>j<m. snd (ps ! (i + j)) \<noteq> symb) \<Longrightarrow>
         redirect_scan symb i n args = redirect_scan symb (i + m) n args"
proof (induction m arbitrary: i)
  case 0
  then show ?case by simp
next
  case (Suc m)
  have "snd (ps ! i) \<noteq> symb" using Suc.prems(2) [rule_format, of 0] by simp
  then have "redirect_scan symb i n args = redirect_scan symb (Suc i) n args"
    using assms Suc.prems(1) by (intro redirect_scan_miss) auto
  also have "\<dots> = redirect_scan symb (Suc i + m) n args"
  proof (rule Suc.IH)
    show "Suc i + m \<le> n" using Suc.prems(1) by simp
    show "\<forall>j<m. snd (ps ! (Suc i + j)) \<noteq> symb"
      using Suc.prems(2) [rule_format, of "Suc j" for j] by simp
  qed
  finally show ?case by simp
qed

lemma redirect_scan_hit_last:
  assumes "take n args = map Some ps" "n < length args" "args ! n = None"
    and "i < n" "snd (ps ! i) = symb" "Suc i = n"
  shows "redirect_scan symb i n args = Inr (Not_redirected [Syntax_error None])"
  using assms by (subst redirect_scan.simps) (simp add: holds_nth is_valid_redirection_def)

lemma redirect_scan_hit_invalid:
  assumes "take n args = map Some ps" "n \<le> length args"
    and "i < n" "snd (ps ! i) = symb" "Suc i < n" "\<not> operand_ok (snd (ps ! Suc i))"
  shows "redirect_scan symb i n args =
         Inr (Not_redirected [Syntax_error (Some (snd (ps ! Suc i)))])"
  using assms
  by (subst redirect_scan.simps) (auto simp: holds_nth is_valid_redirection_def operand_ok_def)

lemma redirect_scan_hit_valid:
  assumes "take n args = map Some ps" "n \<le> length args"
    and "i < n" "snd (ps ! i) = symb" "Suc i < n" "operand_ok (snd (ps ! Suc i))"
  shows "redirect_scan symb i n args =
         Inr (Redirected (n - 2)
               (map Some (take i ps @ drop (i + 2) ps) @ None # drop (n - 1) args)
               (snd (ps ! Suc i)))"
proof -
  have len: "length ps = n" using assms(1,2) by (rule holds_length)
  have "(shift_args i n args)[n - 2 := None] =
        take i args @ take (n - 2 - i) (drop (i + 2) args) @ None # drop (n - 1) args"
    using assms by (intro shift_args_compact) auto
  also have "take i args = map Some (take i ps)"
    using assms by (metis less_imp_le_nat min.absorb1 take_map take_take)
  also have "take (n - 2 - i) (drop (i + 2) args) = map Some (drop (i + 2) ps)"
  proof -
    have "drop (i + 2) (take n args) = take (n - (i + 2)) (drop (i + 2) args)"
      by (rule drop_take)
    moreover have "n - 2 - i = n - (i + 2)" by simp
    ultimately have "take (n - 2 - i) (drop (i + 2) args) = drop (i + 2) (take n args)"
      by simp
    then show ?thesis unfolding assms(1) by (simp add: drop_map)
  qed
  finally have compact: "(shift_args i n args)[n - 2 := None] =
        map Some (take i ps @ drop (i + 2) ps) @ None # drop (n - 1) args"
    by simp
  show ?thesis
    using assms compact
    by (subst redirect_scan.simps) (auto simp: holds_nth is_valid_redirection_def operand_ok_def)
qed


lemma redirect_scan_holds:
  assumes "take n args = map Some ps" "n < length args" "args ! n = None"
  shows "redirect_scan symb 0 n args =
    (let ts = map snd ps; k = first_index symb ts in
     if symb \<notin> set ts then Inr (Not_redirected [])
     else if Suc k < n \<and> operand_ok (ts ! Suc k) then
       Inr (Redirected (n - 2)
             (map Some (take k ps @ drop (k + 2) ps) @ None # drop (n - 1) args)
             (ts ! Suc k))
     else Inr (Not_redirected [Syntax_error (if Suc k < n then Some (ts ! Suc k) else None)]))"
proof -
  let ?ts = "map snd ps" and ?k = "first_index symb (map snd ps)"
  have le: "n \<le> length args" using assms(2) by simp
  have len: "length ps = n" using assms(1) le by (rule holds_length)
  have k: "?k \<le> n" using first_index_le [of symb ?ts] len by simp
  have "\<forall>j<?k. snd (ps ! (0 + j)) \<noteq> symb"
    using first_index_before [of _ symb ?ts] k len by simp
  then have skip: "redirect_scan symb 0 n args = redirect_scan symb (0 + ?k) n args"
    using assms(1) le k by (intro redirect_scan_skip [where ps = ps]) auto
  show ?thesis
  proof (cases "symb \<in> set ?ts")
    case False
    then have "?k = n" using first_index_mem [of symb ?ts] len k by simp
    then show ?thesis
      using False skip redirect_scan_end [of n n symb args] by (simp add: Let_def)
  next
    case True
    then have lt: "?k < n" using first_index_mem [of symb ?ts] len by simp
    then have at: "snd (ps ! ?k) = symb"
      using first_index_at [of symb ?ts] len by simp
    consider "Suc ?k = n" | "Suc ?k < n" "\<not> operand_ok (snd (ps ! Suc ?k))"
      | "Suc ?k < n" "operand_ok (snd (ps ! Suc ?k))"
      using lt by linarith
    then show ?thesis
    proof cases
      case 1
      then show ?thesis
        using True skip redirect_scan_hit_last [OF assms lt at] by (simp add: Let_def)
    next
      case 2
      then show ?thesis
        using True skip redirect_scan_hit_invalid [OF assms(1) le lt at] len
        by (simp add: Let_def)
    next
      case 3
      then show ?thesis
        using True skip redirect_scan_hit_valid [OF assms(1) le lt at] len
        by (simp add: Let_def)
    qed
  qed
qed

lemma length_copy_args: "length (copy_args i m off args dst) = length dst"
  by (induction i m off args dst rule: copy_args.induct) (subst copy_args.simps, simp)

lemma nth_copy_args:
  "m \<le> length dst \<Longrightarrow> j < length dst \<Longrightarrow>
   copy_args i m off args dst ! j = (if i \<le> j \<and> j < m then args ! (j + off) else dst ! j)"
proof (induction i m off args dst rule: copy_args.induct)
  case (1 i m off args dst)
  show ?case
  proof (cases "i < m")
    case True
    have "copy_args i m off args dst ! j =
          copy_args (Suc i) m off args (dst[i := args ! (i + off)]) ! j"
      using True by (subst copy_args.simps) simp
    also have "\<dots> = (if Suc i \<le> j \<and> j < m then args ! (j + off)
                      else (dst[i := args ! (i + off)]) ! j)"
      using "1.IH" [OF True] "1.prems" by simp
    also have "\<dots> = (if i \<le> j \<and> j < m then args ! (j + off) else dst ! j)"
      using "1.prems" True by (auto simp: nth_list_update)
    finally show ?thesis .
  next
    case False
    then show ?thesis by (subst copy_args.simps) auto
  qed
qed

lemma pipe_lhs_holds:
  assumes "take n args = map Some ps" "n \<le> length args" "k \<le> n"
  shows "pipe_lhs args (int k) = map Some (take k ps) @ [None]"
proof (rule nth_equalityI)
  have len: "length ps = n" using assms(1,2) by (rule holds_length)
  show "length (pipe_lhs args (int k)) = length (map Some (take k ps) @ [None])"
    using assms len by (simp add: pipe_lhs_def length_copy_args)
  fix j assume "j < length (pipe_lhs args (int k))"
  then have j: "j \<le> k" by (simp add: pipe_lhs_def length_copy_args)
  show "pipe_lhs args (int k) ! j = (map Some (take k ps) @ [None]) ! j"
  proof (cases "j = k")
    case True
    then show ?thesis
      using assms len nth_append_length [of "map Some (take k ps)" None "[]"]
      by (simp add: pipe_lhs_def length_copy_args)
  next
    case False
    then have lt: "j < k" using j by simp
    then have "args ! j = Some (ps ! j)"
      using assms by (intro holds_nth [where n = n]) auto
    then show ?thesis
      using lt assms len by (simp add: pipe_lhs_def length_copy_args nth_copy_args nth_append)
  qed
qed

lemma pipe_rhs_holds:
  assumes "take n args = map Some ps" "n \<le> length args" "k < n"
  shows "pipe_rhs args (int k) n = map Some (drop (Suc k) ps) @ [None]"
proof (rule nth_equalityI)
  have len: "length ps = n" using assms(1,2) by (rule holds_length)
  show "length (pipe_rhs args (int k) n) = length (map Some (drop (Suc k) ps) @ [None])"
    using assms len by (simp add: pipe_rhs_def length_copy_args)
  fix j assume "j < length (pipe_rhs args (int k) n)"
  then have j: "j < n - k" by (simp add: pipe_rhs_def length_copy_args)
  show "pipe_rhs args (int k) n ! j = (map Some (drop (Suc k) ps) @ [None]) ! j"
  proof (cases "j = n - k - 1")
    case True
    have "length (map Some (drop (Suc k) ps)) = n - k - 1" using len by simp
    then have "(map Some (drop (Suc k) ps) @ [None]) ! (n - k - 1) = None"
      using nth_append_length [of "map Some (drop (Suc k) ps)" None "[]"] by simp
    then show ?thesis
      using True assms by (simp add: pipe_rhs_def length_copy_args)
  next
    case False
    then have lt: "j < n - k - 1" using j by simp
    then have "args ! (j + (k + 1)) = Some (ps ! (j + (k + 1)))"
      using assms by (intro holds_nth [where n = n]) auto
    moreover have "(map Some (drop (Suc k) ps) @ [None]) ! j = Some (ps ! (Suc k + j))"
      using lt len by (simp add: nth_append)
    ultimately show ?thesis
      using lt j False by (simp add: pipe_rhs_def length_copy_args nth_copy_args add.commute)
  qed
qed

lemma argv_strings_holds: "argv_strings (map Some qs @ None # rest) = map snd qs"
  by (induction qs) (auto simp: argv_strings_def)

lemma slot0_holds:
  "(map Some qs @ [None]) ! 0 = (case qs of [] \<Rightarrow> None | q # _ \<Rightarrow> Some q)"
  by (cases qs) simp_all

lemma exec_child_holds:
  "exec_child env msg (map Some qs @ [None]) =
     Execvp (case qs of [] \<Rightarrow> None | q # _ \<Rightarrow> Some (snd q)) (map snd qs) #
     (if execvp_ok env (case qs of [] \<Rightarrow> None | q # _ \<Rightarrow> Some (snd q)) then []
      else [Child_perror msg, Child_exit_failure])"
  using argv_strings_holds [of qs "[]"]
  by (cases qs) (simp_all add: exec_child_def)

lemma execute_cmd_piped:
  assumes "take n args = map Some ps" "n \<le> length args" "''|'' \<in> set (map snd ps)"
  shows "execute_cmd env sh n args =
         execute_pipe env sh args (int (first_index ''|'' (map snd ps))) n"
proof -
  have "length ps = n" using assms(1,2) by (rule holds_length)
  moreover have "ps \<noteq> []" using assms(3) by auto
  ultimately have "n \<noteq> 0" by auto
  then show ?thesis
    using assms(3) find_pipe_idx_holds [OF assms(1,2)] by (simp add: execute_cmd_def)
qed

lemma execute_pipe_holds:
  assumes "take n args = map Some ps" "n \<le> length args" "k < n" "pipe_ok env"
  shows "execute_pipe env sh args (int k) n =
     finish
       [Pipe True,
        Fork (if fork_ok env 0 then 1 else - 1)
          (if fork_ok env 0
           then [Close Fd_read, Dup2 Fd_write Stdout, Close Fd_write]
                @ exec_child env ''execvp lhs'' (map Some (take k ps) @ [None])
           else []),
        Fork (if fork_ok env 1 then 2 else - 1)
          (if fork_ok env 1
           then [Close Fd_write, Dup2 Fd_read Stdin, Close Fd_read]
                @ exec_child env ''execvp rhs'' (map Some (drop (Suc k) ps) @ [None])
           else []),
        Parent_close Fd_read, Parent_close Fd_write,
        Waitpid (if fork_ok env 0 then 1 else - 1),
        Waitpid (if fork_ok env 1 then 2 else - 1)] sh args Returned"
  using assms pipe_lhs_holds [OF assms(1,2), of k] pipe_rhs_holds [OF assms(1,2,3)]
  by (simp add: execute_pipe_def Let_def)

section \<open>The tokenizer splits on runs of delimiters\<close>

lemma fields_word:
  "\<forall>c\<in>set w. \<not> is_delim c \<Longrightarrow> is_delim d \<Longrightarrow> fields (w @ d # r) = w # fields r"
  by (induction w) (auto split: list.splits)

lemma fields_word_end: "\<forall>c\<in>set w. \<not> is_delim c \<Longrightarrow> fields w = [w]"
  by (induction w) (auto split: list.splits)

lemma whitespace_split_skip:
  "\<forall>c\<in>set ds. is_delim c \<Longrightarrow> whitespace_split (ds @ s) = whitespace_split s"
  by (induction ds) (auto simp: whitespace_split_def)

lemma whitespace_split_strtok_None:
  assumes "strtok s = None"
  shows "whitespace_split s = []"
proof -
  have "dropWhile is_delim s = []"
    using assms by (simp add: strtok_def split: list.splits)
  then have "\<forall>c\<in>set s. is_delim c" by simp
  then have "whitespace_split (s @ []) = whitespace_split []"
    by (rule whitespace_split_skip)
  then show ?thesis by (simp add: whitespace_split_def)
qed

lemma whitespace_split_strtok_Some:
  assumes "strtok s = Some (t, r)"
  shows "whitespace_split s = t # whitespace_split r" and "t \<noteq> []"
    and "\<forall>c\<in>set t. \<not> is_delim c"
proof -
  let ?u = "dropWhile is_delim s"
  obtain c cs where u: "?u = c # cs"
    using assms by (auto simp: strtok_def split: list.splits)
  have t: "t = takeWhile (\<lambda>x. \<not> is_delim x) ?u"
    and r: "r = drop 1 (dropWhile (\<lambda>x. \<not> is_delim x) ?u)"
    using assms u by (auto simp: strtok_def)
  have c: "\<not> is_delim c" using u hd_dropWhile [of is_delim s] by force
  show "t \<noteq> []" using t u c by simp
  show nd: "\<forall>c\<in>set t. \<not> is_delim c"
    unfolding t by (auto dest: set_takeWhileD)
  have skip: "whitespace_split s = whitespace_split ?u"
    using whitespace_split_skip [of "takeWhile is_delim s" ?u]
    by (auto dest: set_takeWhileD)
  have tne: "t \<noteq> []" using t u c by simp
  show "whitespace_split s = t # whitespace_split r"
  proof (cases "dropWhile (\<lambda>x. \<not> is_delim x) ?u")
    case Nil
    then have "?u = t" unfolding t by (metis append_Nil2 takeWhile_dropWhile_id)
    moreover have "r = []" using r Nil by simp
    ultimately show ?thesis
      using skip nd tne fields_word_end [of t] by (simp add: whitespace_split_def)
  next
    case (Cons d r')
    then have d: "is_delim d" using hd_dropWhile [of "\<lambda>x. \<not> is_delim x" ?u] by force
    have "?u = t @ d # r'" unfolding t using Cons by (metis takeWhile_dropWhile_id)
    moreover have "r = r'" using r Cons by simp
    ultimately show ?thesis
      using skip nd tne d fields_word [of t d r'] by (simp add: whitespace_split_def)
  qed
qed

lemma tokenize_loop_tokens:
  "tokenize_loop env rest args n cap = Some (args', n', cap') \<Longrightarrow>
   args' = args @ map (\<lambda>(i, t). (n + i, t)) (enumerate 0 (whitespace_split rest)) \<and>
   n' = n + length (whitespace_split rest)"
proof (induction env rest args n cap rule: tokenize_loop.induct)
  case (1 env rest args num_args capacity)
  show ?case
  proof (cases "strtok rest")
    case None
    then show ?thesis
      using "1.prems" whitespace_split_strtok_None [OF None]
      by (subst (asm) tokenize_loop.simps) simp
  next
    case (Some tr)
    obtain t r where tr: "tr = (t, r)" by (cases tr)
    note ws = whitespace_split_strtok_Some(1) [OF Some [unfolded tr]]
    have shift: "map (\<lambda>(i, t). (num_args + i, t)) (enumerate 0 (t # whitespace_split r)) =
                 (num_args, t) # map (\<lambda>(i, t). (Suc num_args + i, t)) (enumerate 0 (whitespace_split r))"
      by (simp add: enumerate_Suc_eq comp_def case_prod_unfold)
    show ?thesis
    proof (cases "capacity \<le> num_args")
      case True
      then have ok: "alloc_ok env (capacity * 2)"
        and run: "tokenize_loop env r (args @ [(num_args, t)]) (Suc num_args) (capacity * 2) =
                  Some (args', n', cap')"
        using "1.prems" Some tr
        by (subst (asm) tokenize_loop.simps, simp split: if_splits)+
      show ?thesis
        using "1.IH"(1) [OF Some tr [symmetric] True ok run] ws shift by simp
    next
      case False
      then have run: "tokenize_loop env r (args @ [(num_args, t)]) (Suc num_args) capacity =
                  Some (args', n', cap')"
        using "1.prems" Some tr
        by (subst (asm) tokenize_loop.simps) simp
      show ?thesis
        using "1.IH"(2) [OF Some tr [symmetric] False run] ws shift by simp
    qed
  qed
qed

lemma tokenize_loop_total:
  "\<forall>k. alloc_ok env k \<Longrightarrow> \<exists>res. tokenize_loop env rest args n cap = Some res"
proof (induction env rest args n cap rule: tokenize_loop.induct)
  case (1 env rest args num_args capacity)
  show ?case
  proof (cases "strtok rest")
    case None
    then show ?thesis by (subst tokenize_loop.simps) simp
  next
    case (Some tr)
    obtain t r where tr: "tr = (t, r)" by (cases tr)
    show ?thesis
    proof (cases "capacity \<le> num_args")
      case True
      have ok: "alloc_ok env (capacity * 2)" using "1.prems" by simp
      show ?thesis
        using "1.IH"(1) [OF Some tr [symmetric] True ok "1.prems"] Some tr True ok
        by (subst tokenize_loop.simps) simp
    next
      case False
      show ?thesis
        using "1.IH"(2) [OF Some tr [symmetric] False "1.prems"] Some tr False
        by (subst tokenize_loop.simps) simp
    qed
  qed
qed

lemma first_index_hd: "ts \<noteq> [] \<Longrightarrow> hd ts = t \<Longrightarrow> first_index t ts = 0"
  by (cases ts) (simp_all add: first_index_def)

lemma first_index_last:
  "ts \<noteq> [] \<Longrightarrow> last ts = t \<Longrightarrow> t \<notin> set (butlast ts) \<Longrightarrow> first_index t ts = length ts - 1"
proof -
  assume a: "ts \<noteq> []" "last ts = t" "t \<notin> set (butlast ts)"
  then have ts: "ts = butlast ts @ [t]" by (metis append_butlast_last_id)
  have "takeWhile (\<lambda>x. x \<noteq> t) (butlast ts @ [t]) = butlast ts"
    using a(3) by (subst takeWhile_append2) auto
  then have "takeWhile (\<lambda>x. x \<noteq> t) ts = butlast ts"
    using ts by simp
  then show ?thesis by (simp add: first_index_def)
qed


lemma execute_pipe_rhs_empty:
  assumes "Suc k = length ps"
  shows "pipe_rhs (map Some ps @ [None]) (int k) (length ps) = [None]"
    and "pipe_ok env \<and> fork_ok env 1 \<longrightarrow>
           Fork 2 ([Close Fd_write, Dup2 Fd_read Stdin, Close Fd_read, Execvp None []]
                   @ (if execvp_ok env None then []
                      else [Child_perror ''execvp rhs'', Child_exit_failure]))
           \<in> set (oc_trace (execute_pipe env sh (map Some ps @ [None]) (int k) (length ps)))"
proof -
  let ?args = "map Some ps @ [None]" and ?n = "length ps"
  have h: "take ?n ?args = map Some ps" "?n \<le> length ?args" by simp_all
  have lt: "k < ?n" using assms by simp
  show rhs: "pipe_rhs ?args (int k) ?n = [None]"
    unfolding pipe_rhs_holds [OF h lt] using assms by simp
  show "pipe_ok env \<and> fork_ok env 1 \<longrightarrow>
           Fork 2 ([Close Fd_write, Dup2 Fd_read Stdin, Close Fd_read, Execvp None []]
                   @ (if execvp_ok env None then []
                      else [Child_perror ''execvp rhs'', Child_exit_failure]))
           \<in> set (oc_trace (execute_pipe env sh ?args (int k) ?n))"
    by (simp add: execute_pipe_def Let_def finish_def rhs exec_child_def argv_strings_def)
qed

section \<open>The single-command path on an array that holds a token vector\<close>

lemma nth_app_left: "j < length xs \<Longrightarrow> (xs @ ys) ! j = xs ! j"
  by (simp add: nth_append)

lemma compacted_array:
  assumes "take n args = map Some ps" and "n < length args" and "Suc k < n"
  defines "a' \<equiv> map Some (take k ps @ drop (k + 2) ps) @ None # drop (n - 1) args"
  shows "length a' = length args"
    and "take (n - 2) a' = map Some (take k ps @ drop (k + 2) ps)"
    and "a' ! (n - 2) = None"
    and "\<forall>j<k. a' ! j = args ! j"
    and "\<forall>j. k \<le> j \<and> j < n - 2 \<longrightarrow> a' ! j = args ! (j + 2)"
    and "\<forall>j. n - 2 < j \<and> j < length args \<longrightarrow> a' ! j = args ! j"
proof -
  let ?q = "take k ps @ drop (k + 2) ps"
  have le: "n \<le> length args" using assms(2) by simp
  have len: "length ps = n" using assms(1) le by (rule holds_length)
  have lq: "length (map Some ?q) = n - 2" using len assms(3) by simp
  show "length a' = length args" unfolding a'_def using lq assms(2,3) by simp
  show "take (n - 2) a' = map Some ?q" unfolding a'_def using lq by simp
  show "a' ! (n - 2) = None"
    unfolding a'_def using nth_append_length [of "map Some ?q" None "drop (n - 1) args"] lq
    by simp
  show "\<forall>j<k. a' ! j = args ! j"
  proof (intro allI impI)
    fix j assume j: "j < k"
    have jl: "j < length (map Some ?q)" unfolding lq using j assms(3) by linarith
    then have "a' ! j = map Some ?q ! j" unfolding a'_def by (rule nth_app_left)
    also have "\<dots> = Some (?q ! j)" using jl by (intro nth_map) (simp only: length_map)
    also have "?q ! j = ps ! j" using j len assms(3) by (simp add: nth_append)
    also have "Some (ps ! j) = args ! j"
      using holds_nth [OF assms(1) le, of j] j assms(3) by simp
    finally show "a' ! j = args ! j" .
  qed
  show "\<forall>j. k \<le> j \<and> j < n - 2 \<longrightarrow> a' ! j = args ! (j + 2)"
  proof (intro allI impI)
    fix j assume j: "k \<le> j \<and> j < n - 2"
    have jl: "j < length (map Some ?q)" unfolding lq using j by simp
    then have "a' ! j = map Some ?q ! j" unfolding a'_def by (rule nth_app_left)
    also have "\<dots> = Some (?q ! j)" using jl by (intro nth_map) (simp only: length_map)
    also have "?q ! j = drop (k + 2) ps ! (j - k)"
      using j len assms(3) by (simp add: nth_append)
    also have "\<dots> = ps ! (k + 2 + (j - k))"
      using len assms(3) by (intro nth_drop) simp
    also have "k + 2 + (j - k) = j + 2" using j by simp
    also have "Some (ps ! (j + 2)) = args ! (j + 2)"
    proof -
      have "j + 2 < n" using j by linarith
      then show ?thesis using holds_nth [OF assms(1) le, of "j + 2"] by simp
    qed
    finally show "a' ! j = args ! (j + 2)" .
  qed
  show "\<forall>j. n - 2 < j \<and> j < length args \<longrightarrow> a' ! j = args ! j"
  proof (intro allI impI)
    fix j assume j: "n - 2 < j \<and> j < length args"
    define m where "m = j - (n - 1)"
    have jm: "j = (n - 2) + Suc m" using j assms(3) unfolding m_def by linarith
    have "a' ! j = (None # drop (n - 1) args) ! Suc m"
      unfolding a'_def jm using nth_append_length_plus [of "map Some ?q" _ "Suc m"] lq by simp
    also have "\<dots> = args ! (n - 1 + m)" using jm j by simp
    also have "n - 1 + m = j" using jm assms(3) by linarith
    finally show "a' ! j = args ! j" .
  qed
qed

lemma oc_args_run: "oc_args (execute_cmd_run env sh tr n args) = args"
  by (simp add: execute_cmd_run_def finish_def Let_def split: option.splits prod.splits)

lemma oc_trace_run_prefix:
  "take (length tr) (oc_trace (execute_cmd_run env sh tr n args)) = tr"
  by (simp add: execute_cmd_run_def finish_def Let_def split: option.splits prod.splits)

lemma execute_cmd_single:
  assumes "take n args = map Some ps" and "n \<le> length args" and "n \<noteq> 0"
    and "''|'' \<notin> set (map snd ps)"
  shows "execute_cmd env sh n args =
     (case redirect_input n args of
        Inl f \<Rightarrow> finish [] sh args Segfault
      | Inr (Not_redirected errs) \<Rightarrow> execute_cmd_output env sh errs n args
      | Inr (Redirected n' args' path) \<Rightarrow>
          (case freopen env path Stdin sh of
             (False, sh') \<Rightarrow>
               finish [Freopen path Stdin False, Perror ''Failed to redirect input'']
                 sh' args' Returned
           | (True, sh') \<Rightarrow>
               execute_cmd_output env sh' [Freopen path Stdin True] n' args'))"
  using assms find_pipe_idx_holds [OF assms(1,2)] by (simp add: execute_cmd_def)


lemma scan_redirected:
  assumes "take n args = map Some ps" and "n < length args" and "args ! n = None"
    and "redirect_scan symb 0 n args = Inr (Redirected n' args' path)"
  shows "Suc (first_index symb (map snd ps)) < n"
    and "operand_ok path"
    and "path = snd (ps ! Suc (first_index symb (map snd ps)))"
    and "n' = n - 2"
    and "args' = map Some (take (first_index symb (map snd ps)) ps
                           @ drop (first_index symb (map snd ps) + 2) ps)
                 @ None # drop (n - 1) args"
proof -
  have len: "length ps = n" using assms(1,2) by (intro holds_length) auto
  note r = assms(4) [unfolded redirect_scan_holds [OF assms(1,2,3)] Let_def]
  show k: "Suc (first_index symb (map snd ps)) < n"
    using r by (simp split: if_splits)
  show "operand_ok path" using r by (auto split: if_splits)
  show "path = snd (ps ! Suc (first_index symb (map snd ps)))"
    using r k len by (auto split: if_splits)
  show "n' = n - 2" using r by (simp split: if_splits)
  show "args' = map Some (take (first_index symb (map snd ps)) ps
                           @ drop (first_index symb (map snd ps) + 2) ps)
                 @ None # drop (n - 1) args"
    using r by (simp split: if_splits)
qed

lemma execute_cmd_both_redirected:
  assumes h: "take n args = map Some ps" "n < length args" "args ! n = None"
    and np: "''|'' \<notin> set (map snd ps)"
    and k1: "k1 = first_index ''<'' (map snd ps)"
    and ps1: "ps1 = take k1 ps @ drop (k1 + 2) ps"
    and k2: "k2 = first_index ''>'' (map snd ps1)"
    and ps2: "ps2 = take k2 ps1 @ drop (k2 + 2) ps1"
    and in_ok: "Suc k1 < n" "operand_ok (snd (ps ! Suc k1))" "readable env (snd (ps ! Suc k1))"
    and out_ok: "Suc k2 < n - 2" "operand_ok (snd (ps1 ! Suc k2))" "writable env (snd (ps1 ! Suc k2))"
  shows "\<exists>a2. execute_cmd env sh n args =
            execute_cmd_run env
              (sh\<lparr>st_stdin := On_path (snd (ps ! Suc k1)), st_stdout := On_path (snd (ps1 ! Suc k2))\<rparr>)
              [Freopen (snd (ps ! Suc k1)) Stdin True, Freopen (snd (ps1 ! Suc k2)) Stdout True]
              (n - 4) a2 \<and>
            take (n - 4) a2 = map Some ps2 \<and> a2 ! (n - 4) = None \<and>
            argv_strings a2 = map snd ps2"
proof -
  let ?f = "snd (ps ! Suc k1)" and ?g = "snd (ps1 ! Suc k2)"
  define a1 where "a1 = map Some ps1 @ None # drop (n - 1) args"
  define a2 where "a2 = map Some ps2 @ None # drop (n - 2 - 1) a1"
  have le: "n \<le> length args" using h(2) by simp
  have len: "length ps = n" using h(1) le by (rule holds_length)
  have n0: "n \<noteq> 0" using in_ok(1) by simp
  have mem1: "''<'' \<in> set (map snd ps)"
    using first_index_mem [of "''<''" "map snd ps"] in_ok(1) k1 len by simp
  have scan1: "redirect_input n args = Inr (Redirected (n - 2) a1 ?f)"
    unfolding redirect_input_def redirect_scan_holds [OF h] Let_def a1_def ps1 k1
    using mem1 in_ok len unfolding k1 by simp
  note c1 = compacted_array [OF h(1,2) in_ok(1), folded ps1, folded a1_def]
  have h1: "take (n - 2) a1 = map Some ps1" "n - 2 < length a1" "a1 ! (n - 2) = None"
    using c1(1,2,3) h(2) by simp_all
  have len1: "length ps1 = n - 2" using h1(1,2) by (intro holds_length) auto
  have mem2: "''>'' \<in> set (map snd ps1)"
    using first_index_mem [of "''>''" "map snd ps1"] out_ok(1) k2 len1 by simp
  have scan2: "redirect_output (n - 2) a1 = Inr (Redirected (n - 2 - 2) a2 ?g)"
    unfolding redirect_output_def redirect_scan_holds [OF h1] Let_def a2_def ps2 k2
    using mem2 out_ok len1 unfolding k2 by simp
  note c2 = compacted_array [OF h1(1,2) out_ok(1), folded ps2, folded a2_def]
  have n4: "n - 2 - 2 = n - 4" by simp
  have run: "execute_cmd env sh n args =
      execute_cmd_run env (sh\<lparr>st_stdin := On_path ?f, st_stdout := On_path ?g\<rparr>)
        [Freopen ?f Stdin True, Freopen ?g Stdout True] (n - 4) a2"
    unfolding execute_cmd_single [OF h(1) le n0 np] scan1
    using in_ok(3) out_ok(3)
    by (simp add: freopen_def execute_cmd_output_def scan2 n4)
  have "argv_strings a2 = map snd ps2"
    unfolding a2_def by (rule argv_strings_holds)
  then show ?thesis
    using run c2(2,3) unfolding n4 by blast
qed


lemma fields_no_delim: "\<forall>w\<in>set (fields s). \<forall>c\<in>set w. \<not> is_delim c"
proof (induction s)
  case Nil
  show ?case by simp
next
  case (Cons a s)
  show ?case
  proof (cases "is_delim a")
    case True
    then show ?thesis using Cons by simp
  next
    case False
    show ?thesis
    proof (cases "fields s")
      case Nil
      then show ?thesis using False by simp
    next
      case (Cons w ws)
      then show ?thesis using False Cons.IH by auto
    qed
  qed
qed

lemma whitespace_split_tokens:
  "t \<in> set (whitespace_split s) \<Longrightarrow> t \<noteq> [] \<and> (\<forall>c\<in>set t. \<not> is_delim c)"
  using fields_no_delim [of s] by (auto simp: whitespace_split_def)

lemma whitespace_split_blank: "\<forall>c\<in>set s. is_delim c \<Longrightarrow> whitespace_split s = []"
  using whitespace_split_skip [of s "[]"] by (simp add: whitespace_split_def)

lemma enumerate_shift0: "map (\<lambda>(i, t). (0 + i, t)) (enumerate 0 xs) = enumerate 0 xs"
  by (simp add: case_prod_unfold)

lemma tokenize_loop_result:
  "tokenize_loop env line [] 0 10 = Some (a, n, cap) \<Longrightarrow>
   a = enumerate 0 (whitespace_split line) \<and> n = length (whitespace_split line)"
  using tokenize_loop_tokens [of env line "[]" 0 10 a n cap] by (simp add: enumerate_shift0)

lemma execute_cmd_plain:
  assumes "\<forall>t\<in>set toks. t \<noteq> ''<'' \<and> t \<noteq> ''>'' \<and> t \<noteq> ''|''" and "toks \<noteq> []"
  shows "execute_cmd env sh (length toks) (map Some (enumerate 0 toks) @ [None]) =
         execute_cmd_run env sh [] (length toks) (map Some (enumerate 0 toks) @ [None])"
proof -
  let ?ps = "enumerate 0 toks" and ?n = "length toks"
  let ?args = "map Some ?ps @ [None]"
  have ts: "map snd ?ps = toks" by simp
  have h: "take ?n ?args = map Some ?ps" "?n < length ?args" "?args ! ?n = None"
    using nth_append_length [of "map Some ?ps" None "[]"] by simp_all
  have le: "?n \<le> length ?args" by simp
  have n0: "?n \<noteq> 0" using assms(2) by simp
  have np: "''|'' \<notin> set (map snd ?ps)" unfolding ts using assms(1) by auto
  have ni: "''<'' \<notin> set (map snd ?ps)" unfolding ts using assms(1) by auto
  have no: "''>'' \<notin> set (map snd ?ps)" unfolding ts using assms(1) by auto
  have i: "redirect_input ?n ?args = Inr (Not_redirected [])"
    unfolding redirect_input_def redirect_scan_holds [OF h] Let_def using ni by simp
  have out: "redirect_output ?n ?args = Inr (Not_redirected [])"
    unfolding redirect_output_def redirect_scan_holds [OF h] Let_def using no by simp
  show ?thesis
    unfolding execute_cmd_single [OF h(1) le n0 np] i
    by (simp add: execute_cmd_output_def out)
qed

lemma free_args_fresh:
  assumes "n = length toks" and "args = map Some (enumerate 0 toks) @ [None]"
  shows "i \<le> n \<Longrightarrow> set freed = {..<i} \<Longrightarrow>
         free_args i n args freed tr = (tr @ map (\<lambda>j. Free (Some j)) [i..<n], True)"
proof (induction "n - i" arbitrary: i freed tr)
  case 0
  then have "i = n" by simp
  then show ?case by (subst free_args.simps) simp
next
  case (Suc d)
  then have lt: "i < n" by simp
  have slot: "args ! i = Some (i, toks ! i)"
    unfolding assms(2) using lt assms(1) by (simp add: nth_append nth_enumerate_eq)
  have fresh: "i \<notin> set freed" using Suc.prems(2) by simp
  have "free_args i n args freed tr =
        free_args (Suc i) n args (i # freed) (tr @ [Free (Some i)])"
    using lt slot fresh by (subst free_args.simps) simp
  also have "\<dots> = ((tr @ [Free (Some i)]) @ map (\<lambda>j. Free (Some j)) [Suc i..<n], True)"
  proof (rule Suc.hyps(1))
    show "d = n - Suc i" using Suc.hyps(2) by simp
    show "Suc i \<le> n" using lt by simp
    show "set (i # freed) = {..<Suc i}" using Suc.prems(2) by (simp add: lessThan_Suc)
  qed
  also have "(tr @ [Free (Some i)]) @ map (\<lambda>j. Free (Some j)) [Suc i..<n] =
             tr @ map (\<lambda>j. Free (Some j)) [i..<n]"
    using lt by (simp add: upt_conv_Cons)
  finally show ?case .
qed

section \<open>Syntax errors do not stop the line\<close>

text \<open>
  Claim C1 says that a redirection symbol with a missing or invalid operand is reported
  and that nothing is executed for the line. The report is made, but both scans return
  false for it, as they do when the symbol is absent, and the caller goes on: on the
  line made of the tokens cat and the input symbol, the message is printed (with the null
  sentinel as the token) and then a child is forked that runs cat with the symbol as its
  argument.
\<close>

theorem C1_syntax_error_then_spawn:
  "po_trace (parse_cmd host_ok at_start (typed ''cat <'')) =
     [Syntax_error None, Fork 1 [Execvp (Some ''cat'') [''cat'', ''<'']], Waitpid 1,
      Freopen ''/dev/tty'' Stdin True, Freopen ''/dev/tty'' Stdout True,
      Free (Some 0), Free (Some 1), Free_array]"
  by code_simp

section \<open>A vector emptied by extraction\<close>

text \<open>
  Claim C2 says that a line whose vector is empty after extraction is a no-op. The test
  for an empty vector stands before the extraction only: on the line made of the input
  symbol and a readable file, standard input is reopened on the file and then the
  comparison with the name of the built-in reads slot 0, which holds the null sentinel.
\<close>

theorem C2_empty_vector_null_deref:
  "po_status (parse_cmd host_ok at_start (typed ''< file'')) = Segfault \<and>
   po_trace (parse_cmd host_ok at_start (typed ''< file'')) = [Freopen ''file'' Stdin True]"
  by code_simp

section \<open>What a line leaves behind\<close>

text \<open>
  Claim C3 says that every line has released its state when the next line is read. On
  a line that runs the built-in with an output redirection, standard output is reopened
  on the file, the built-in returns before the two streams are reopened on the terminal,
  and the duplicate of the output symbol (allocation 2) is never freed: the loop frees
  slots 0 to 3 of the compacted array, where slot 2 is the sentinel. On a line whose
  input file cannot be opened, the function returns right after the failed \<^verbatim>\<open>freopen\<close>,
  which has closed standard input, and nothing reopens it on the terminal; the duplicate
  of the input symbol (allocation 1) is never freed.
\<close>

theorem C3_cd_keeps_stdout_redirected:
  "po_streams (parse_cmd host_ok at_start (typed ''cd /tmp > out.txt'')) =
     \<lparr>st_stdin = Inherited, st_stdout = On_path ''out.txt''\<rparr> \<and>
   po_trace (parse_cmd host_ok at_start (typed ''cd /tmp > out.txt'')) =
     [Freopen ''out.txt'' Stdout True, Chdir (Some ''/tmp'') True,
      Free (Some 0), Free (Some 1), Free None, Free (Some 3), Free_array] \<and>
   po_status (parse_cmd host_ok at_start (typed ''cd /tmp > out.txt'')) = Returned \<and>
   po_streams (parse_cmd (host_ok\<lparr>readable := (\<lambda>_. False)\<rparr>) at_start (typed ''cat < nofile'')) =
     \<lparr>st_stdin = Closed, st_stdout = Inherited\<rparr> \<and>
   po_trace (parse_cmd (host_ok\<lparr>readable := (\<lambda>_. False)\<rparr>) at_start (typed ''cat < nofile'')) =
     [Freopen ''nofile'' Stdin False, Perror ''Failed to redirect input'',
      Free (Some 0), Free None, Free (Some 2), Free_array] \<and>
   po_status (parse_cmd (host_ok\<lparr>readable := (\<lambda>_. False)\<rparr>) at_start (typed ''cat < nofile'')) =
     Returned"
  by code_simp

section \<open>A pipe symbol takes the whole line\<close>

text \<open>
  Claim C4. When a pipe symbol stands anywhere in the vector, \<^verbatim>\<open>execute_cmd\<close> is
  \<^verbatim>\<open>execute_pipe\<close> at the first pipe symbol \<open>k\<close>: the standard streams and the array are
  left as they were, nothing is reopened and no syntax error is reported, and the tokens
  before and after \<open>k\<close>, redirection symbols included, are the argument vectors of the
  two children as they stand in the line.
\<close>

theorem C4_pipe_before_redirection:
  assumes "''|'' \<in> set (map snd ps)"
  shows "(let args = map Some ps @ [None]; n = length ps; ts = map snd ps;
              k = first_index ''|'' ts; r = execute_cmd env sh n args
          in r = execute_pipe env sh args (int k) n \<and>
             oc_streams r = sh \<and> oc_args r = args \<and>
             (\<forall>path s ok. Freopen path s ok \<notin> set (oc_trace r)) \<and>
             (\<forall>t. Syntax_error t \<notin> set (oc_trace r)) \<and>
             ts = take k ts @ ''|'' # drop (Suc k) ts \<and>
             argv_strings (pipe_lhs args (int k)) = take k ts \<and>
             argv_strings (pipe_rhs args (int k) n) = drop (Suc k) ts \<and>
             (pipe_ok env \<longrightarrow>
                oc_trace r =
                  [Pipe True,
                   Fork (if fork_ok env 0 then 1 else - 1)
                     (if fork_ok env 0
                      then [Close Fd_read, Dup2 Fd_write Stdout, Close Fd_write,
                            Execvp (map_option snd (pipe_lhs args (int k) ! 0)) (take k ts)]
                           @ (if execvp_ok env (map_option snd (pipe_lhs args (int k) ! 0)) then []
                              else [Child_perror ''execvp lhs'', Child_exit_failure])
                      else []),
                   Fork (if fork_ok env 1 then 2 else - 1)
                     (if fork_ok env 1
                      then [Close Fd_write, Dup2 Fd_read Stdin, Close Fd_read,
                            Execvp (map_option snd (pipe_rhs args (int k) n ! 0)) (drop (Suc k) ts)]
                           @ (if execvp_ok env (map_option snd (pipe_rhs args (int k) n ! 0)) then []
                              else [Child_perror ''execvp rhs'', Child_exit_failure])
                      else []),
                   Parent_close Fd_read, Parent_close Fd_write,
                   Waitpid (if fork_ok env 0 then 1 else - 1),
                   Waitpid (if fork_ok env 1 then 2 else - 1)]))"
proof -
  let ?args = "map Some ps @ [None]" and ?n = "length ps" and ?ts = "map snd ps"
  let ?k = "first_index ''|'' ?ts"
  let ?r = "execute_cmd env sh ?n ?args"
  have h: "take ?n ?args = map Some ps" "?n \<le> length ?args" by simp_all
  have k: "?k < ?n" using assms first_index_mem [of "''|''" ?ts] by simp
  have at: "?ts ! ?k = ''|''" using k first_index_at [of "''|''" ?ts] by simp
  have r: "?r = execute_pipe env sh ?args (int ?k) ?n"
    using execute_cmd_piped [OF h assms] .
  have lhs: "pipe_lhs ?args (int ?k) = map Some (take ?k ps) @ [None]"
    using pipe_lhs_holds [OF h, of ?k] k by simp
  have rhs: "pipe_rhs ?args (int ?k) ?n = map Some (drop (Suc ?k) ps) @ [None]"
    using pipe_rhs_holds [OF h k] .
  have al: "argv_strings (pipe_lhs ?args (int ?k)) = take ?k ?ts"
    unfolding lhs using argv_strings_holds [of "take ?k ps" "[]"] by (simp add: take_map)
  have ar: "argv_strings (pipe_rhs ?args (int ?k) ?n) = drop (Suc ?k) ?ts"
    unfolding rhs using argv_strings_holds [of "drop (Suc ?k) ps" "[]"] by (simp add: drop_map)
  have split: "?ts = take ?k ?ts @ ''|'' # drop (Suc ?k) ?ts"
    using k at id_take_nth_drop [of ?k ?ts] by simp
  have st: "oc_streams ?r = sh" and ar': "oc_args ?r = ?args"
    unfolding r by (simp_all add: execute_pipe_def finish_def Let_def)
  have nf: "\<forall>path s ok. Freopen path s ok \<notin> set (oc_trace ?r)"
    and ns: "\<forall>t. Syntax_error t \<notin> set (oc_trace ?r)"
    unfolding r by (simp_all add: execute_pipe_def finish_def Let_def)
  have tr: "pipe_ok env \<longrightarrow>
      oc_trace ?r =
        [Pipe True,
         Fork (if fork_ok env 0 then 1 else - 1)
           (if fork_ok env 0
            then [Close Fd_read, Dup2 Fd_write Stdout, Close Fd_write,
                  Execvp (map_option snd (pipe_lhs ?args (int ?k) ! 0)) (take ?k ?ts)]
                 @ (if execvp_ok env (map_option snd (pipe_lhs ?args (int ?k) ! 0)) then []
                    else [Child_perror ''execvp lhs'', Child_exit_failure])
            else []),
         Fork (if fork_ok env 1 then 2 else - 1)
           (if fork_ok env 1
            then [Close Fd_write, Dup2 Fd_read Stdin, Close Fd_read,
                  Execvp (map_option snd (pipe_rhs ?args (int ?k) ?n ! 0)) (drop (Suc ?k) ?ts)]
                 @ (if execvp_ok env (map_option snd (pipe_rhs ?args (int ?k) ?n ! 0)) then []
                    else [Child_perror ''execvp rhs'', Child_exit_failure])
            else []),
         Parent_close Fd_read, Parent_close Fd_write,
         Waitpid (if fork_ok env 0 then 1 else - 1),
         Waitpid (if fork_ok env 1 then 2 else - 1)]"
    unfolding r using al ar
    by (simp add: execute_pipe_def finish_def Let_def exec_child_def)
  show ?thesis
    unfolding Let_def using r st ar' nf ns al ar split tr by blast
qed

theorem C4_pipe_before_redirection_witness:
  "oc_trace (execute_cmd host_ok at_start 6
     [Some (0, ''echo''), Some (1, ''a''), Some (2, ''>''), Some (3, ''f''), Some (4, ''|''),
      Some (5, ''cat''), None]) =
   [Pipe True,
    Fork 1 [Close Fd_read, Dup2 Fd_write Stdout, Close Fd_write,
            Execvp (Some ''echo'') [''echo'', ''a'', ''>'', ''f'']],
    Fork 2 [Close Fd_write, Dup2 Fd_read Stdin, Close Fd_read,
            Execvp (Some ''cat'') [''cat'']],
    Parent_close Fd_read, Parent_close Fd_write, Waitpid 1, Waitpid 2]"
proof -
  let ?ps = "[(0::nat, ''echo''), (1, ''a''), (2, ''>''), (3, ''f''), (4, ''|''), (5, ''cat'')]"
  have k: "first_index ''|'' (map snd ?ps) = 4" by (simp add: first_index_def)
  have n: "length ?ps = 6" by simp
  have l0: "pipe_lhs (map Some ?ps @ [None]) (int 4) ! 0 = Some (0, ''echo'')"
    by code_simp
  have r0: "pipe_rhs (map Some ?ps @ [None]) (int 4) 6 ! 0 = Some (5, ''cat'')"
    by code_simp
  have "''|'' \<in> set (map snd ?ps)" by simp
  note C4_pipe_before_redirection [OF this, of host_ok at_start, unfolded Let_def k n l0 r0,
      THEN conjunct2]
  then show ?thesis by (simp add: host_ok_def)
qed

section \<open>Which operand a redirection symbol accepts\<close>

text \<open>
  Claim C5 says that the token after a redirection symbol is a valid target unless it
  is itself one of the two symbols, so that a token that only begins with one of them is
  accepted; the comment of \<^verbatim>\<open>is_valid_redirection\<close> says the same, and every other test
  for a symbol compares the whole token. The test of the operand reads its first
  character and nothing else: after the input symbol, a token that is not a symbol but
  begins with the input symbol is refused, and the scan reports a syntax error for it.
\<close>

theorem C5_first_char_counterexample:
  "redirect_input 3 [Some (0, ''cat''), Some (1, ''<''), Some (2, ''<file''), None] =
     Inr (Not_redirected [Syntax_error (Some ''<file'')])"
  by code_simp

text \<open>
  How far the scans depart from the claim: on an array that holds a token vector with
  its sentinel, the scan for a symbol that occurs in the vector succeeds with the path
  \<open>path\<close> exactly when a token follows the first occurrence of the symbol, \<open>path\<close> is that
  token, and its first character is neither of the two redirection characters. So the
  tokens refused against the claim are those that begin with one of the two characters
  and are longer than it.
\<close>

lemma scan_succeeds_iff:
  assumes "take n args = map Some ps" and "n < length args" and "args ! n = None"
    and "(scan = redirect_input \<and> symb = ''<'') \<or> (scan = redirect_output \<and> symb = ''>'')"
    and "symb \<in> set (map snd ps)"
  shows "(\<exists>n' args'. scan n args = Inr (Redirected n' args' path)) \<longleftrightarrow>
         (Suc (first_index symb (map snd ps)) < n \<and>
          path = map snd ps ! Suc (first_index symb (map snd ps)) \<and>
          first_char path \<noteq> CHR ''<'' \<and> first_char path \<noteq> CHR ''>'')"
proof -
  have scan: "scan n args = redirect_scan symb 0 n args"
    using assms(4) by (auto simp: redirect_input_def redirect_output_def)
  show ?thesis
    unfolding scan redirect_scan_holds [OF assms(1,2,3)] Let_def
    using assms(5) by (auto simp: operand_ok_def)
qed

section \<open>Extraction compacts the vector, input before output\<close>

text \<open>
  Claim C6. On an array that holds a token vector with its sentinel, a scan that
  succeeds has found the first occurrence \<open>k\<close> of its symbol, returns the token after
  it as the path and the count less two, and leaves the array with the slots before \<open>k\<close>
  untouched, every slot from \<open>k\<close> up to the new count holding what stood two slots
  further, the null sentinel at the new count, and the slots past it untouched: the new
  vector is the old one without the symbol and its operand. On a line without a pipe
  symbol whose two scans succeed and whose two files can be opened, \<^verbatim>\<open>execute_cmd\<close>
  reopens standard input first and standard output second, the output scan having run on
  the vector that the input scan left (its index \<open>k2\<close> is an index of that vector), and
  the command is then run on the vector without either pair.
\<close>

theorem C6_extraction_compacts:
  assumes "take n args = map Some ps" and "n < length args" and "args ! n = None"
  shows "(\<forall>scan symb n' args' path.
            ((scan = redirect_input \<and> symb = ''<'') \<or> (scan = redirect_output \<and> symb = ''>'')) \<and>
            scan n args = Inr (Redirected n' args' path) \<longrightarrow>
            (let k = first_index symb (map snd ps)
             in Suc k < n \<and> snd (ps ! k) = symb \<and> path = snd (ps ! Suc k) \<and>
                n' = n - 2 \<and> length args' = length args \<and>
                take n' args' = map Some (take k ps @ drop (k + 2) ps) \<and>
                args' ! n' = None \<and>
                (\<forall>j<k. args' ! j = args ! j) \<and>
                (\<forall>j. k \<le> j \<and> j < n' \<longrightarrow> args' ! j = args ! (j + 2)) \<and>
                (\<forall>j. n' < j \<and> j < length args \<longrightarrow> args' ! j = args ! j))) \<and>
         (''|'' \<notin> set (map snd ps) \<longrightarrow>
            (let k1 = first_index ''<'' (map snd ps);
                 ps1 = take k1 ps @ drop (k1 + 2) ps;
                 k2 = first_index ''>'' (map snd ps1);
                 ps2 = take k2 ps1 @ drop (k2 + 2) ps1;
                 input_file = snd (ps ! Suc k1);
                 output_file = snd (ps1 ! Suc k2)
             in Suc k1 < n \<and> operand_ok input_file \<and> readable env input_file \<and>
                Suc k2 < n - 2 \<and> operand_ok output_file \<and> writable env output_file \<longrightarrow>
                (\<exists>a2. execute_cmd env sh n args =
                         execute_cmd_run env
                           (sh\<lparr>st_stdin := On_path input_file, st_stdout := On_path output_file\<rparr>)
                           [Freopen input_file Stdin True, Freopen output_file Stdout True]
                           (n - 4) a2 \<and>
                       take (n - 4) a2 = map Some ps2 \<and> a2 ! (n - 4) = None \<and>
                       argv_strings a2 = map snd ps2)))"
proof (intro conjI allI impI)
  fix scan symb n' args' path
  assume a: "((scan = redirect_input \<and> symb = ''<'') \<or> (scan = redirect_output \<and> symb = ''>'')) \<and>
             scan n args = Inr (Redirected n' args' path)"
  let ?k = "first_index symb (map snd ps)"
  have len: "length ps = n" using assms(1,2) by (intro holds_length) auto
  have "scan n args = redirect_scan symb 0 n args"
    using a by (auto simp: redirect_input_def redirect_output_def)
  then have res: "redirect_scan symb 0 n args = Inr (Redirected n' args' path)"
    using a by simp
  note s = scan_redirected [OF assms res]
  note c = compacted_array [OF assms(1,2) s(1), folded s(5)]
  have at: "snd (ps ! ?k) = symb"
    using first_index_at [of symb "map snd ps"] s(1) len by simp
  show "let k = first_index symb (map snd ps)
        in Suc k < n \<and> snd (ps ! k) = symb \<and> path = snd (ps ! Suc k) \<and>
           n' = n - 2 \<and> length args' = length args \<and>
           take n' args' = map Some (take k ps @ drop (k + 2) ps) \<and>
           args' ! n' = None \<and>
           (\<forall>j<k. args' ! j = args ! j) \<and>
           (\<forall>j. k \<le> j \<and> j < n' \<longrightarrow> args' ! j = args ! (j + 2)) \<and>
           (\<forall>j. n' < j \<and> j < length args \<longrightarrow> args' ! j = args ! j)"
    unfolding Let_def s(4) using s(1,3) at c by blast
next
  assume np: "''|'' \<notin> set (map snd ps)"
  show "let k1 = first_index ''<'' (map snd ps);
            ps1 = take k1 ps @ drop (k1 + 2) ps;
            k2 = first_index ''>'' (map snd ps1);
            ps2 = take k2 ps1 @ drop (k2 + 2) ps1;
            input_file = snd (ps ! Suc k1);
            output_file = snd (ps1 ! Suc k2)
        in Suc k1 < n \<and> operand_ok input_file \<and> readable env input_file \<and>
           Suc k2 < n - 2 \<and> operand_ok output_file \<and> writable env output_file \<longrightarrow>
           (\<exists>a2. execute_cmd env sh n args =
                    execute_cmd_run env
                      (sh\<lparr>st_stdin := On_path input_file, st_stdout := On_path output_file\<rparr>)
                      [Freopen input_file Stdin True, Freopen output_file Stdout True]
                      (n - 4) a2 \<and>
                  take (n - 4) a2 = map Some ps2 \<and> a2 ! (n - 4) = None \<and>
                  argv_strings a2 = map snd ps2)"
    unfolding Let_def
    using execute_cmd_both_redirected [OF assms np refl refl refl refl, of env sh]
    by blast
qed

theorem C6_extraction_compacts_witness:
  "argv_strings (oc_args (execute_cmd host_ok at_start 6
     [Some (0, ''sort''), Some (1, ''>''), Some (2, ''out''), Some (3, ''-r''), Some (4, ''<''),
      Some (5, ''in''), None])) = [''sort'', ''-r''] \<and>
   take 2 (oc_trace (execute_cmd host_ok at_start 6
     [Some (0, ''sort''), Some (1, ''>''), Some (2, ''out''), Some (3, ''-r''), Some (4, ''<''),
      Some (5, ''in''), None])) = [Freopen ''in'' Stdin True, Freopen ''out'' Stdout True] \<and>
   [Some (0, ''sort''), Some (1, ''>''), Some (2, ''out''), Some (3, ''-r''),
    None, Some (5, ''in''), None] ! 4 = (None :: cptr option)"
proof -
  let ?ps = "[(0::nat, ''sort''), (1, ''>''), (2, ''out''), (3, ''-r''), (4, ''<''), (5, ''in'')]"
  let ?args = "[Some (0::nat, ''sort''), Some (1, ''>''), Some (2, ''out''), Some (3, ''-r''),
                Some (4, ''<''), Some (5, ''in''), None]"
  have h: "take 6 ?args = map Some ?ps" "6 < length ?args" "?args ! 6 = None" by simp_all
  have np: "''|'' \<notin> set (map snd ?ps)" by simp
  have k1: "first_index ''<'' (map snd ?ps) = 4" by (simp add: first_index_def)
  have ps1: "take 4 ?ps @ drop (4 + 2) ?ps = [(0, ''sort''), (1, ''>''), (2, ''out''), (3, ''-r'')]"
    by simp
  have k2: "first_index ''>'' (map snd [(0::nat, ''sort''), (1, ''>''), (2, ''out''), (3, ''-r'')]) = 1"
    by (simp add: first_index_def)
  have ps2: "take 1 [(0::nat, ''sort''), (1, ''>''), (2, ''out''), (3, ''-r'')]
             @ drop (1 + 2) [(0::nat, ''sort''), (1, ''>''), (2, ''out''), (3, ''-r'')] =
             [(0, ''sort''), (3, ''-r'')]"
    by simp
  note t = C6_extraction_compacts [OF h, of host_ok at_start, THEN conjunct2, rule_format, OF np,
      unfolded Let_def k1 ps1 k2 ps2]
  have pre: "Suc 4 < (6::nat) \<and> operand_ok (snd (?ps ! Suc 4)) \<and> readable host_ok (snd (?ps ! Suc 4)) \<and>
             Suc 1 < (6::nat) - 2 \<and>
             operand_ok (snd ([(0::nat, ''sort''), (1, ''>''), (2, ''out''), (3, ''-r'')] ! Suc 1)) \<and>
             writable host_ok (snd ([(0::nat, ''sort''), (1, ''>''), (2, ''out''), (3, ''-r'')] ! Suc 1))"
    by (simp add: operand_ok_def first_char_def host_ok_def)
  from t pre obtain a2 where
    run: "execute_cmd host_ok at_start 6 ?args =
          execute_cmd_run host_ok
            (at_start\<lparr>st_stdin := On_path (snd (?ps ! Suc 4)),
                       st_stdout := On_path (snd ([(0::nat, ''sort''), (1, ''>''), (2, ''out''), (3, ''-r'')] ! Suc 1))\<rparr>)
            [Freopen (snd (?ps ! Suc 4)) Stdin True,
             Freopen (snd ([(0::nat, ''sort''), (1, ''>''), (2, ''out''), (3, ''-r'')] ! Suc 1)) Stdout True]
            (6 - 4) a2"
    and av: "argv_strings a2 = map snd [(0::nat, ''sort''), (3, ''-r'')]"
    by blast
  have 1: "argv_strings (oc_args (execute_cmd host_ok at_start 6 ?args)) = [''sort'', ''-r'']"
    unfolding run oc_args_run av by simp
  have 2: "take 2 (oc_trace (execute_cmd host_ok at_start 6 ?args)) =
           [Freopen ''in'' Stdin True, Freopen ''out'' Stdout True]"
    unfolding run
    using oc_trace_run_prefix [of "[Freopen ''in'' Stdin True, Freopen ''out'' Stdout True]"]
    by (simp add: numeral_2_eq_2)
  have scan: "redirect_input 6 ?args =
      Inr (Redirected 4 [Some (0, ''sort''), Some (1, ''>''), Some (2, ''out''), Some (3, ''-r''),
                         None, Some (5, ''in''), None] ''in'')"
    by code_simp
  have "(redirect_input = redirect_input \<and> ''<'' = ''<'') \<or>
        (redirect_input = redirect_output \<and> ''<'' = ''>'')" by simp
  with scan C6_extraction_compacts [OF h, of host_ok at_start, THEN conjunct1, rule_format,
      of redirect_input "''<''", unfolded Let_def k1]
  have 3: "[Some (0, ''sort''), Some (1, ''>''), Some (2, ''out''), Some (3, ''-r''),
            None, Some (5, ''in''), None] ! 4 = (None :: cptr option)"
    by blast
  show ?thesis using 1 2 3 by simp
qed

section \<open>The piped path\<close>

text \<open>
  Claim C7. Handed the index \<open>k\<close> of a pipe symbol, \<^verbatim>\<open>execute_pipe\<close> builds the left array
  from the slots before \<open>k\<close> and the right array from the slots after it, each ended by
  a null slot of its own. On a host where the pipe and both forks succeed, what happens
  is, in this order: the pipe is created; the first child is forked, which closes the
  read end, makes the write end its standard output, closes the write end and executes
  the left command; the second child is forked, which closes the write end, makes the
  read end its standard input, closes the read end and executes the right command; the
  parent closes both ends, waits for the first child, waits for the second, and
  returns. \<^verbatim>\<open>execute_cmd\<close> hands over the index of the first pipe symbol of the line.
\<close>

theorem C7_piped_path:
  assumes "k < length ps" and "snd (ps ! k) = ''|''"
    and "pipe_ok env" and "fork_ok env 0" and "fork_ok env 1"
  shows "pipe_lhs (map Some ps @ [None]) (int k) = map Some (take k ps) @ [None] \<and>
         pipe_rhs (map Some ps @ [None]) (int k) (length ps) = map Some (drop (Suc k) ps) @ [None] \<and>
         execute_pipe env sh (map Some ps @ [None]) (int k) (length ps) =
           finish
             [Pipe True,
              Fork 1 ([Close Fd_read, Dup2 Fd_write Stdout, Close Fd_write,
                       Execvp (map_option snd (pipe_lhs (map Some ps @ [None]) (int k) ! 0))
                         (map snd (take k ps))]
                      @ (if execvp_ok env (map_option snd (pipe_lhs (map Some ps @ [None]) (int k) ! 0))
                         then [] else [Child_perror ''execvp lhs'', Child_exit_failure])),
              Fork 2 ([Close Fd_write, Dup2 Fd_read Stdin, Close Fd_read,
                       Execvp (map_option snd (pipe_rhs (map Some ps @ [None]) (int k) (length ps) ! 0))
                         (map snd (drop (Suc k) ps))]
                      @ (if execvp_ok env (map_option snd (pipe_rhs (map Some ps @ [None]) (int k) (length ps) ! 0))
                         then [] else [Child_perror ''execvp rhs'', Child_exit_failure])),
              Parent_close Fd_read, Parent_close Fd_write, Waitpid 1, Waitpid 2]
             sh (map Some ps @ [None]) Returned \<and>
         (k = first_index ''|'' (map snd ps) \<longrightarrow>
            execute_cmd env sh (length ps) (map Some ps @ [None]) =
            execute_pipe env sh (map Some ps @ [None]) (int k) (length ps))"
proof -
  let ?args = "map Some ps @ [None]" and ?n = "length ps"
  have h: "take ?n ?args = map Some ps" "?n \<le> length ?args" by simp_all
  have lhs: "pipe_lhs ?args (int k) = map Some (take k ps) @ [None]"
    using pipe_lhs_holds [OF h, of k] assms(1) by simp
  have rhs: "pipe_rhs ?args (int k) ?n = map Some (drop (Suc k) ps) @ [None]"
    using pipe_rhs_holds [OF h assms(1)] .
  have l0: "(map Some (take k ps) @ [None]) ! 0 = (case take k ps of [] \<Rightarrow> None | q # _ \<Rightarrow> Some q)"
    by (rule slot0_holds)
  have r0: "(map Some (drop (Suc k) ps) @ [None]) ! 0 =
            (case drop (Suc k) ps of [] \<Rightarrow> None | q # _ \<Rightarrow> Some q)"
    by (rule slot0_holds)
  have run: "execute_pipe env sh ?args (int k) ?n =
           finish
             [Pipe True,
              Fork 1 ([Close Fd_read, Dup2 Fd_write Stdout, Close Fd_write,
                       Execvp (map_option snd (pipe_lhs ?args (int k) ! 0)) (map snd (take k ps))]
                      @ (if execvp_ok env (map_option snd (pipe_lhs ?args (int k) ! 0))
                         then [] else [Child_perror ''execvp lhs'', Child_exit_failure])),
              Fork 2 ([Close Fd_write, Dup2 Fd_read Stdin, Close Fd_read,
                       Execvp (map_option snd (pipe_rhs ?args (int k) ?n ! 0))
                         (map snd (drop (Suc k) ps))]
                      @ (if execvp_ok env (map_option snd (pipe_rhs ?args (int k) ?n ! 0))
                         then [] else [Child_perror ''execvp rhs'', Child_exit_failure])),
              Parent_close Fd_read, Parent_close Fd_write, Waitpid 1, Waitpid 2]
             sh ?args Returned"
    unfolding lhs rhs l0 r0
    using execute_pipe_holds [OF h assms(1,3), of sh] assms(4,5)
    by (simp add: exec_child_holds split: list.splits)
  have cmd: "k = first_index ''|'' (map snd ps) \<longrightarrow>
            execute_cmd env sh ?n ?args = execute_pipe env sh ?args (int k) ?n"
  proof
    assume k: "k = first_index ''|'' (map snd ps)"
    have "''|'' \<in> set (map snd ps)"
      using assms(1,2) by (metis length_map nth_map nth_mem)
    then show "execute_cmd env sh ?n ?args = execute_pipe env sh ?args (int k) ?n"
      using execute_cmd_piped [OF h] k by simp
  qed
  show ?thesis using lhs rhs run cmd by blast
qed


theorem C7_piped_path_witness:
  "execute_cmd host_ok at_start 5
     [Some (0, ''echo''), Some (1, ''hi''), Some (2, ''|''), Some (3, ''wc''), Some (4, ''-w''), None] =
   finish
     [Pipe True,
      Fork 1 [Close Fd_read, Dup2 Fd_write Stdout, Close Fd_write,
              Execvp (Some ''echo'') [''echo'', ''hi'']],
      Fork 2 [Close Fd_write, Dup2 Fd_read Stdin, Close Fd_read,
              Execvp (Some ''wc'') [''wc'', ''-w'']],
      Parent_close Fd_read, Parent_close Fd_write, Waitpid 1, Waitpid 2]
     at_start
     [Some (0, ''echo''), Some (1, ''hi''), Some (2, ''|''), Some (3, ''wc''), Some (4, ''-w''), None]
     Returned"
  using C7_piped_path [of 2 "[(0, ''echo''), (1, ''hi''), (2, ''|''), (3, ''wc''), (4, ''-w'')]"
      host_ok at_start]
  by (simp add: host_ok_def first_index_def eval_nat_numeral)

section \<open>The tokens are the pieces of the line\<close>

text \<open>
  Claim C8. Whenever the tokenizer loop returns, the strings it has stored are the line
  split on runs of spaces and newlines, numbered from 0 in order, and the count is their
  number; it does return when every allocation succeeds, and \<^verbatim>\<open>parse_cmd\<close> then runs
  \<^verbatim>\<open>execute_cmd\<close> on that count and that vector. No token is empty or holds a
  delimiter, and a line made of delimiters only (the empty line too) gives no token.
  When no token is one of the three metacharacters, \<^verbatim>\<open>execute_cmd\<close> leaves the array as
  it got it, the vector that \<^verbatim>\<open>execvp\<close> would read from it is the token sequence, every
  string is then freed once, so that \<^verbatim>\<open>parse_cmd\<close> ends as \<^verbatim>\<open>execute_cmd\<close> did, a
  command other than the built-in is executed in the child with exactly that vector,
  and the built-in gets the second token as its directory.
\<close>

theorem C8_tokens_are_the_split:
  "(let toks = whitespace_split line; n = length toks;
        args = map Some (enumerate 0 toks) @ [None];
        r = execute_cmd env sh n args
    in (\<forall>a m cap. tokenize_loop env line [] 0 10 = Some (a, m, cap) \<longrightarrow>
          a = enumerate 0 toks \<and> map snd a = toks \<and> m = n) \<and>
       ((\<forall>k. alloc_ok env k) \<longrightarrow>
          (\<exists>cap. tokenize_loop env line [] 0 10 = Some (enumerate 0 toks, n, cap)) \<and>
          (\<exists>frees. po_trace (parse_cmd env sh line) = oc_trace r @ frees) \<and>
          po_num_args (parse_cmd env sh line) = n) \<and>
       (\<forall>t\<in>set toks. t \<noteq> [] \<and> (\<forall>c\<in>set t. c \<noteq> CHR '' '' \<and> c \<noteq> CHR 0x0A)) \<and>
       ((\<forall>c\<in>set line. c = CHR '' '' \<or> c = CHR 0x0A) \<longrightarrow> toks = []) \<and>
       ((\<forall>t\<in>set toks. t \<noteq> ''<'' \<and> t \<noteq> ''>'' \<and> t \<noteq> ''|'') \<longrightarrow>
          oc_args r = args \<and> argv_strings (oc_args r) = toks \<and>
          ((\<forall>k. alloc_ok env k) \<longrightarrow> po_status (parse_cmd env sh line) = oc_status r) \<and>
          (toks \<noteq> [] \<and> hd toks \<noteq> ''cd'' \<and> fork_ok env 0 \<longrightarrow>
             (\<exists>evs. oc_trace r =
                Fork 1 (Execvp (Some (hd toks)) toks #
                        (if execvp_ok env (Some (hd toks)) then []
                         else [Child_perror ''execvp'', Child_exit_failure]))
                # Waitpid 1 # evs)) \<and>
          (toks \<noteq> [] \<and> hd toks = ''cd'' \<and> 2 \<le> n \<longrightarrow>
             (\<exists>evs. oc_trace r = Chdir (Some (toks ! 1)) (chdir_ok env (toks ! 1)) # evs))))"
proof -
  let ?toks = "whitespace_split line"
  let ?n = "length ?toks"
  let ?args = "map Some (enumerate 0 ?toks) @ [None]"
  let ?r = "execute_cmd env sh ?n ?args"
  have 1: "\<forall>a m cap. tokenize_loop env line [] 0 10 = Some (a, m, cap) \<longrightarrow>
          a = enumerate 0 ?toks \<and> map snd a = ?toks \<and> m = ?n"
    using tokenize_loop_result [of env line] by auto
  have 2: "(\<forall>k. alloc_ok env k) \<longrightarrow>
          (\<exists>cap. tokenize_loop env line [] 0 10 = Some (enumerate 0 ?toks, ?n, cap)) \<and>
          (\<exists>frees. po_trace (parse_cmd env sh line) = oc_trace ?r @ frees) \<and>
          po_num_args (parse_cmd env sh line) = ?n"
  proof
    assume ok: "\<forall>k. alloc_ok env k"
    obtain res where res: "tokenize_loop env line [] 0 10 = Some res"
      using tokenize_loop_total [OF ok] by blast
    obtain a m cap where "res = (a, m, cap)" by (cases res)
    with res 1 have tok: "tokenize_loop env line [] 0 10 = Some (enumerate 0 ?toks, ?n, cap)"
      by simp
    have "(\<exists>frees. po_trace (parse_cmd env sh line) = oc_trace ?r @ frees) \<and>
          po_num_args (parse_cmd env sh line) = ?n"
      using ok tok by (simp add: parse_cmd_def Let_def split: prod.splits bool.splits)
    with tok show "(\<exists>cap. tokenize_loop env line [] 0 10 = Some (enumerate 0 ?toks, ?n, cap)) \<and>
          (\<exists>frees. po_trace (parse_cmd env sh line) = oc_trace ?r @ frees) \<and>
          po_num_args (parse_cmd env sh line) = ?n"
      by blast
  qed
  have 3: "\<forall>t\<in>set ?toks. t \<noteq> [] \<and> (\<forall>c\<in>set t. c \<noteq> CHR '' '' \<and> c \<noteq> CHR 0x0A)"
    using whitespace_split_tokens [of _ line] by (auto simp: is_delim_def)
  have 4: "(\<forall>c\<in>set line. c = CHR '' '' \<or> c = CHR 0x0A) \<longrightarrow> ?toks = []"
    using whitespace_split_blank [of line] by (simp add: is_delim_def)
  have 5: "(\<forall>t\<in>set ?toks. t \<noteq> ''<'' \<and> t \<noteq> ''>'' \<and> t \<noteq> ''|'') \<longrightarrow>
          oc_args ?r = ?args \<and> argv_strings (oc_args ?r) = ?toks \<and>
          ((\<forall>k. alloc_ok env k) \<longrightarrow> po_status (parse_cmd env sh line) = oc_status ?r) \<and>
          (?toks \<noteq> [] \<and> hd ?toks \<noteq> ''cd'' \<and> fork_ok env 0 \<longrightarrow>
             (\<exists>evs. oc_trace ?r =
                Fork 1 (Execvp (Some (hd ?toks)) ?toks #
                        (if execvp_ok env (Some (hd ?toks)) then []
                         else [Child_perror ''execvp'', Child_exit_failure]))
                # Waitpid 1 # evs)) \<and>
          (?toks \<noteq> [] \<and> hd ?toks = ''cd'' \<and> 2 \<le> ?n \<longrightarrow>
             (\<exists>evs. oc_trace ?r = Chdir (Some (?toks ! 1)) (chdir_ok env (?toks ! 1)) # evs))"
  proof
    assume plain: "\<forall>t\<in>set ?toks. t \<noteq> ''<'' \<and> t \<noteq> ''>'' \<and> t \<noteq> ''|''"
    have av: "argv_strings ?args = ?toks"
      using argv_strings_holds [of "enumerate 0 ?toks" "[]"] by simp
    have oa: "oc_args ?r = ?args"
    proof (cases "?toks = []")
      case True
      then show ?thesis by (simp add: execute_cmd_def finish_def)
    next
      case False
      show ?thesis unfolding execute_cmd_plain [OF plain False] by (rule oc_args_run)
    qed
    have spawn: "?toks \<noteq> [] \<and> hd ?toks \<noteq> ''cd'' \<and> fork_ok env 0 \<longrightarrow>
             (\<exists>evs. oc_trace ?r =
                Fork 1 (Execvp (Some (hd ?toks)) ?toks #
                        (if execvp_ok env (Some (hd ?toks)) then []
                         else [Child_perror ''execvp'', Child_exit_failure]))
                # Waitpid 1 # evs)"
    proof
      assume a: "?toks \<noteq> [] \<and> hd ?toks \<noteq> ''cd'' \<and> fork_ok env 0"
      then obtain t ts where tts: "?toks = t # ts" by (cases ?toks) auto
      have a0: "?args ! 0 = Some (0, hd ?toks)" unfolding tts by simp
      have ec: "exec_child env ''execvp'' ?args =
                Execvp (Some (hd ?toks)) ?toks #
                  (if execvp_ok env (Some (hd ?toks)) then []
                   else [Child_perror ''execvp'', Child_exit_failure])"
        unfolding exec_child_def a0 av by simp
      show "\<exists>evs. oc_trace ?r =
                Fork 1 (Execvp (Some (hd ?toks)) ?toks #
                        (if execvp_ok env (Some (hd ?toks)) then []
                         else [Child_perror ''execvp'', Child_exit_failure]))
                # Waitpid 1 # evs"
        unfolding execute_cmd_plain [OF plain a [THEN conjunct1]]
        using a by (simp add: execute_cmd_run_def a0 ec finish_def split: prod.splits)
    qed
    have cd: "?toks \<noteq> [] \<and> hd ?toks = ''cd'' \<and> 2 \<le> ?n \<longrightarrow>
             (\<exists>evs. oc_trace ?r = Chdir (Some (?toks ! 1)) (chdir_ok env (?toks ! 1)) # evs)"
    proof
      assume a: "?toks \<noteq> [] \<and> hd ?toks = ''cd'' \<and> 2 \<le> ?n"
      then obtain t u ts where tts: "?toks = t # u # ts"
        by (cases ?toks; cases "tl ?toks") auto
      have a0: "?args ! 0 = Some (0, ''cd'')" "?args ! Suc 0 = Some (Suc 0, ?toks ! Suc 0)"
        using a unfolding tts by (simp_all add: enumerate_Suc_eq)
      show "\<exists>evs. oc_trace ?r = Chdir (Some (?toks ! 1)) (chdir_ok env (?toks ! 1)) # evs"
        unfolding execute_cmd_plain [OF plain a [THEN conjunct1]]
        using a by (simp add: execute_cmd_run_def a0 finish_def Let_def)
    qed
    have st: "(\<forall>k. alloc_ok env k) \<longrightarrow> po_status (parse_cmd env sh line) = oc_status ?r"
    proof
      assume ok: "\<forall>k. alloc_ok env k"
      obtain res where res: "tokenize_loop env line [] 0 10 = Some res"
        using tokenize_loop_total [OF ok] by blast
      obtain a m cap where "res = (a, m, cap)" by (cases res)
      with res 1 have tok: "tokenize_loop env line [] 0 10 = Some (enumerate 0 ?toks, ?n, cap)"
        by simp
      have fr: "free_args 0 ?n ?args [] [] = ([] @ map (\<lambda>j. Free (Some j)) [0..<?n], True)"
        by (rule free_args_fresh [OF refl refl]) simp_all
      show "po_status (parse_cmd env sh line) = oc_status ?r"
        using ok tok by (simp add: parse_cmd_def Let_def oa fr)
    qed
    show "oc_args ?r = ?args \<and> argv_strings (oc_args ?r) = ?toks \<and>
          ((\<forall>k. alloc_ok env k) \<longrightarrow> po_status (parse_cmd env sh line) = oc_status ?r) \<and>
          (?toks \<noteq> [] \<and> hd ?toks \<noteq> ''cd'' \<and> fork_ok env 0 \<longrightarrow>
             (\<exists>evs. oc_trace ?r =
                Fork 1 (Execvp (Some (hd ?toks)) ?toks #
                        (if execvp_ok env (Some (hd ?toks)) then []
                         else [Child_perror ''execvp'', Child_exit_failure]))
                # Waitpid 1 # evs)) \<and>
          (?toks \<noteq> [] \<and> hd ?toks = ''cd'' \<and> 2 \<le> ?n \<longrightarrow>
             (\<exists>evs. oc_trace ?r = Chdir (Some (?toks ! 1)) (chdir_ok env (?toks ! 1)) # evs))"
      using oa av st spawn cd by simp
  qed
  show ?thesis unfolding Let_def using 1 2 3 4 5 by blast
qed


theorem C8_tokens_are_the_split_witness:
  "po_num_args (parse_cmd host_ok at_start (typed ''ls  -l /tmp '')) = 3 \<and>
   (\<exists>evs. oc_trace (execute_cmd host_ok at_start 3
             [Some (0, ''ls''), Some (1, ''-l''), Some (2, ''/tmp''), None]) =
           Fork 1 [Execvp (Some ''ls'') [''ls'', ''-l'', ''/tmp'']] # Waitpid 1 # evs) \<and>
   whitespace_split (typed ''   '') = []"
proof -
  have ws: "whitespace_split (typed ''ls  -l /tmp '') = [''ls'', ''-l'', ''/tmp'']"
    by code_simp
  have n: "length [''ls'', ''-l'', ''/tmp''] = 3" by simp
  have a: "map Some (enumerate 0 [''ls'', ''-l'', ''/tmp'']) @ [None] =
           [Some (0, ''ls''), Some (1, ''-l''), Some (2, ''/tmp''), None]"
    by simp
  note t = C8_tokens_are_the_split [where env = host_ok and sh = at_start
      and line = "typed ''ls  -l /tmp ''", unfolded Let_def ws n a]
  have ok: "\<forall>k. alloc_ok host_ok k" by (simp add: host_ok_def)
  have plain: "\<forall>t\<in>set [''ls'', ''-l'', ''/tmp'']. t \<noteq> ''<'' \<and> t \<noteq> ''>'' \<and> t \<noteq> ''|''"
    by simp
  have sp: "[''ls'', ''-l'', ''/tmp''] \<noteq> [] \<and> hd [''ls'', ''-l'', ''/tmp''] \<noteq> ''cd'' \<and>
            fork_ok host_ok 0"
    by (simp add: host_ok_def)
  have ex: "execvp_ok host_ok (Some (hd [''ls'', ''-l'', ''/tmp'']))" by (simp add: host_ok_def)
  from t ok have 1: "po_num_args (parse_cmd host_ok at_start (typed ''ls  -l /tmp '')) = 3"
    by blast
  from t plain sp have "\<exists>evs. oc_trace (execute_cmd host_ok at_start 3
             [Some (0, ''ls''), Some (1, ''-l''), Some (2, ''/tmp''), None]) =
           Fork 1 (Execvp (Some (hd [''ls'', ''-l'', ''/tmp''])) [''ls'', ''-l'', ''/tmp''] #
                   (if execvp_ok host_ok (Some (hd [''ls'', ''-l'', ''/tmp''])) then []
                    else [Child_perror ''execvp'', Child_exit_failure]))
           # Waitpid 1 # evs"
    by blast
  then have 2: "\<exists>evs. oc_trace (execute_cmd host_ok at_start 3
             [Some (0, ''ls''), Some (1, ''-l''), Some (2, ''/tmp''), None]) =
           Fork 1 [Execvp (Some ''ls'') [''ls'', ''-l'', ''/tmp'']] # Waitpid 1 # evs"
    using ex by simp
  have "\<forall>c\<in>set (typed ''   ''). c = CHR '' '' \<or> c = CHR 0x0A"
    by (simp add: typed_def)
  with C8_tokens_are_the_split [where env = host_ok and sh = at_start
      and line = "typed ''   ''", unfolded Let_def]
  have 3: "whitespace_split (typed ''   '') = []" by blast
  show ?thesis using 1 2 3 by blast
qed

section \<open>The sentinel slot and the capacity\<close>

text \<open>
  Claim C9 says that the slot of the null sentinel lies within the allocated capacity,
  also when the number of tokens equals the capacity. The capacity is tested before each
  token is stored and not again before the sentinel is: on a line of ten tokens the count
  and the capacity are both 10 when the sentinel is stored in slot 10.
\<close>

theorem C9_sentinel_past_capacity:
  "po_num_args (parse_cmd host_ok at_start (typed ''a b c d e f g h i j'')) = 10 \<and>
   po_capacity (parse_cmd host_ok at_start (typed ''a b c d e f g h i j'')) = 10"
  by code_simp

section \<open>A pipe symbol at either end of the line\<close>

text \<open>
  Claim C10 says that whenever the pipe symbol is the first or the last token, the
  sub-command on that side is empty. The line is split at its first pipe symbol, so a
  pipe symbol at the end of a line that has an earlier one is an argument of the right
  command, which is then not empty.
\<close>

theorem C10_later_pipe_counterexample:
  "oc_trace (execute_cmd host_ok at_start 4
     [Some (0, ''a''), Some (1, ''|''), Some (2, ''b''), Some (3, ''|''), None]) =
   [Pipe True,
    Fork 1 [Close Fd_read, Dup2 Fd_write Stdout, Close Fd_write, Execvp (Some ''a'') [''a'']],
    Fork 2 [Close Fd_write, Dup2 Fd_read Stdin, Close Fd_read,
            Execvp (Some ''b'') [''b'', ''|'']],
    Parent_close Fd_read, Parent_close Fd_write, Waitpid 1, Waitpid 2]"
  by code_simp

text \<open>
  Claim C10, amended. When the pipe symbol is the first token, or is the last token and
  stands nowhere before, \<^verbatim>\<open>execute_cmd\<close> is \<^verbatim>\<open>execute_pipe\<close> at that index with no syntax
  error reported; slot 0 of the array of that side is the null sentinel and its
  argument vector is empty; and when the pipe and the fork of that side succeed, the
  child calls \<^verbatim>\<open>execvp\<close> with a null name and an empty vector.
\<close>

theorem C10_no_operand_validation:
  assumes "ps \<noteq> []"
  shows "(let args = map Some ps @ [None]; n = length ps; ts = map snd ps;
              r = execute_cmd env sh n args
          in (hd ts = ''|'' \<longrightarrow>
                r = execute_pipe env sh args 0 n \<and>
                pipe_lhs args 0 ! 0 = None \<and> argv_strings (pipe_lhs args 0) = [] \<and>
                (\<forall>t. Syntax_error t \<notin> set (oc_trace r)) \<and>
                (pipe_ok env \<and> fork_ok env 0 \<longrightarrow>
                   Fork 1 ([Close Fd_read, Dup2 Fd_write Stdout, Close Fd_write, Execvp None []]
                           @ (if execvp_ok env None then []
                              else [Child_perror ''execvp lhs'', Child_exit_failure]))
                   \<in> set (oc_trace r))) \<and>
             (last ts = ''|'' \<and> ''|'' \<notin> set (butlast ts) \<longrightarrow>
                r = execute_pipe env sh args (int (n - 1)) n \<and>
                pipe_rhs args (int (n - 1)) n ! 0 = None \<and>
                argv_strings (pipe_rhs args (int (n - 1)) n) = [] \<and>
                (\<forall>t. Syntax_error t \<notin> set (oc_trace r)) \<and>
                (pipe_ok env \<and> fork_ok env 1 \<longrightarrow>
                   Fork 2 ([Close Fd_write, Dup2 Fd_read Stdin, Close Fd_read, Execvp None []]
                           @ (if execvp_ok env None then []
                              else [Child_perror ''execvp rhs'', Child_exit_failure]))
                   \<in> set (oc_trace r))))"
proof -
  let ?args = "map Some ps @ [None]" and ?n = "length ps" and ?ts = "map snd ps"
  let ?r = "execute_cmd env sh ?n ?args"
  have h: "take ?n ?args = map Some ps" "?n \<le> length ?args" by simp_all
  have n: "0 < ?n" using assms by simp
  have ts: "?ts \<noteq> []" using assms by simp
  have first: "hd ?ts = ''|'' \<longrightarrow>
                ?r = execute_pipe env sh ?args 0 ?n \<and>
                pipe_lhs ?args 0 ! 0 = None \<and> argv_strings (pipe_lhs ?args 0) = [] \<and>
                (\<forall>t. Syntax_error t \<notin> set (oc_trace ?r)) \<and>
                (pipe_ok env \<and> fork_ok env 0 \<longrightarrow>
                   Fork 1 ([Close Fd_read, Dup2 Fd_write Stdout, Close Fd_write, Execvp None []]
                           @ (if execvp_ok env None then []
                              else [Child_perror ''execvp lhs'', Child_exit_failure]))
                   \<in> set (oc_trace ?r))"
  proof
    assume hd: "hd ?ts = ''|''"
    then have mem: "''|'' \<in> set ?ts" using ts by (metis hd_in_set)
    have k: "first_index ''|'' ?ts = 0" using ts hd by (rule first_index_hd)
    have r: "?r = execute_pipe env sh ?args 0 ?n"
      using execute_cmd_piped [OF h mem, of env sh] k by simp
    have lhs: "pipe_lhs ?args 0 = [None]"
      using pipe_lhs_holds [OF h, of 0] by simp
    have tr: "pipe_ok env \<and> fork_ok env 0 \<longrightarrow>
                   Fork 1 ([Close Fd_read, Dup2 Fd_write Stdout, Close Fd_write, Execvp None []]
                           @ (if execvp_ok env None then []
                              else [Child_perror ''execvp lhs'', Child_exit_failure]))
                   \<in> set (oc_trace ?r)"
      unfolding r
      by (simp add: execute_pipe_def Let_def finish_def lhs exec_child_def argv_strings_def)
    have ns: "\<forall>t. Syntax_error t \<notin> set (oc_trace ?r)"
      unfolding r by (simp add: execute_pipe_def finish_def Let_def)
    show "?r = execute_pipe env sh ?args 0 ?n \<and>
                pipe_lhs ?args 0 ! 0 = None \<and> argv_strings (pipe_lhs ?args 0) = [] \<and>
                (\<forall>t. Syntax_error t \<notin> set (oc_trace ?r)) \<and>
                (pipe_ok env \<and> fork_ok env 0 \<longrightarrow>
                   Fork 1 ([Close Fd_read, Dup2 Fd_write Stdout, Close Fd_write, Execvp None []]
                           @ (if execvp_ok env None then []
                              else [Child_perror ''execvp lhs'', Child_exit_failure]))
                   \<in> set (oc_trace ?r))"
      using r tr ns by (simp add: lhs argv_strings_def)
  qed
  have lastp: "last ?ts = ''|'' \<and> ''|'' \<notin> set (butlast ?ts) \<longrightarrow>
                ?r = execute_pipe env sh ?args (int (?n - 1)) ?n \<and>
                pipe_rhs ?args (int (?n - 1)) ?n ! 0 = None \<and>
                argv_strings (pipe_rhs ?args (int (?n - 1)) ?n) = [] \<and>
                (\<forall>t. Syntax_error t \<notin> set (oc_trace ?r)) \<and>
                (pipe_ok env \<and> fork_ok env 1 \<longrightarrow>
                   Fork 2 ([Close Fd_write, Dup2 Fd_read Stdin, Close Fd_read, Execvp None []]
                           @ (if execvp_ok env None then []
                              else [Child_perror ''execvp rhs'', Child_exit_failure]))
                   \<in> set (oc_trace ?r))"
  proof
    assume a: "last ?ts = ''|'' \<and> ''|'' \<notin> set (butlast ?ts)"
    then have mem: "''|'' \<in> set ?ts" using ts by (metis last_in_set)
    have k: "first_index ''|'' ?ts = ?n - 1"
      using first_index_last [OF ts, of "''|''"] a by simp
    have r: "?r = execute_pipe env sh ?args (int (?n - 1)) ?n"
      unfolding k [symmetric] using execute_cmd_piped [OF h mem, of env sh] .
    have suc: "Suc (?n - 1) = ?n" using n by simp
    note e = execute_pipe_rhs_empty(1) [OF suc] execute_pipe_rhs_empty(2) [OF suc, of env sh]
    have ns: "\<forall>t. Syntax_error t \<notin> set (oc_trace ?r)"
      unfolding r by (simp add: execute_pipe_def finish_def Let_def)
    have z: "pipe_rhs ?args (int (?n - 1)) ?n ! 0 = None"
      "argv_strings (pipe_rhs ?args (int (?n - 1)) ?n) = []"
      unfolding e(1) by (simp_all add: argv_strings_def)
    show "?r = execute_pipe env sh ?args (int (?n - 1)) ?n \<and>
                pipe_rhs ?args (int (?n - 1)) ?n ! 0 = None \<and>
                argv_strings (pipe_rhs ?args (int (?n - 1)) ?n) = [] \<and>
                (\<forall>t. Syntax_error t \<notin> set (oc_trace ?r)) \<and>
                (pipe_ok env \<and> fork_ok env 1 \<longrightarrow>
                   Fork 2 ([Close Fd_write, Dup2 Fd_read Stdin, Close Fd_read, Execvp None []]
                           @ (if execvp_ok env None then []
                              else [Child_perror ''execvp rhs'', Child_exit_failure]))
                   \<in> set (oc_trace ?r))"
      using r z ns e(2) by metis
  qed
  show ?thesis unfolding Let_def using first lastp by blast
qed

theorem C10_no_operand_validation_witness:
  "Fork 2 [Close Fd_write, Dup2 Fd_read Stdin, Close Fd_read, Execvp None []]
     \<in> set (oc_trace (execute_cmd host_ok at_start 2 [Some (0, ''ls''), Some (1, ''|''), None])) \<and>
   Fork 1 [Close Fd_read, Dup2 Fd_write Stdout, Close Fd_write, Execvp None []]
     \<in> set (oc_trace (execute_cmd host_ok at_start 2 [Some (0, ''|''), Some (1, ''wc''), None]))"
proof -
  let ?p = "[(0::nat, ''ls''), (1, ''|'')]" and ?q = "[(0::nat, ''|''), (1, ''wc'')]"
  have n: "length ?p = 2" "length ?q = 2" by simp_all
  have a: "map Some ?p @ [None] = [Some (0, ''ls''), Some (1, ''|''), None]"
    "map Some ?q @ [None] = [Some (0, ''|''), Some (1, ''wc''), None]" by simp_all
  have ok: "pipe_ok host_ok \<and> fork_ok host_ok 0" "pipe_ok host_ok \<and> fork_ok host_ok 1"
    by (simp_all add: host_ok_def)
  have ex: "execvp_ok host_ok None" by (simp add: host_ok_def)
  have lp: "last (map snd ?p) = ''|'' \<and> ''|'' \<notin> set (butlast (map snd ?p))" by simp
  have hq: "hd (map snd ?q) = ''|''" by simp
  have "?p \<noteq> []" by simp
  note C10_no_operand_validation [OF this, of host_ok at_start, unfolded Let_def n a]
  with lp ok(2) have "Fork 2 ([Close Fd_write, Dup2 Fd_read Stdin, Close Fd_read, Execvp None []]
        @ (if execvp_ok host_ok None then [] else [Child_perror ''execvp rhs'', Child_exit_failure]))
     \<in> set (oc_trace (execute_cmd host_ok at_start 2 [Some (0, ''ls''), Some (1, ''|''), None]))"
    by blast
  then have 1: "Fork 2 [Close Fd_write, Dup2 Fd_read Stdin, Close Fd_read, Execvp None []]
     \<in> set (oc_trace (execute_cmd host_ok at_start 2 [Some (0, ''ls''), Some (1, ''|''), None]))"
    using ex by simp
  have "?q \<noteq> []" by simp
  note C10_no_operand_validation [OF this, of host_ok at_start, unfolded Let_def n a]
  with hq ok(1) have "Fork 1 ([Close Fd_read, Dup2 Fd_write Stdout, Close Fd_write, Execvp None []]
        @ (if execvp_ok host_ok None then [] else [Child_perror ''execvp lhs'', Child_exit_failure]))
     \<in> set (oc_trace (execute_cmd host_ok at_start 2 [Some (0, ''|''), Some (1, ''wc''), None]))"
    by blast
  then have 2: "Fork 1 [Close Fd_read, Dup2 Fd_write Stdout, Close Fd_write, Execvp None []]
     \<in> set (oc_trace (execute_cmd host_ok at_start 2 [Some (0, ''|''), Some (1, ''wc''), None]))"
    using ex by simp
  show ?thesis using 1 2 by simp
qed

end
